theory Spec2Isabelle
  imports Complex_Main "HOL-Library.Sublist"
begin

section \<open>Strings\<close>

text \<open>
  A JavaScript string is a sequence of UTF-16 code units. The model uses \<^typ>\<open>string\<close>,
  whose characters are 8-bit: it covers the strings whose code units are below 256, with
  \<open>length\<close> counting code units as \<open>.length\<close> does.
\<close>

abbreviation LF :: char where "LF \<equiv> CHR 0x0A"
abbreviation CR :: char where "CR \<equiv> CHR 0x0D"

section \<open>fuzzySearch.ts: the similarity measure\<close>

text \<open>
  \<open>src/fuzzySearch.ts\<close> comes in two versions. The first scores a window with
  \<open>jaroSimilarity\<close>, the second with \<open>jaroWinklerSimilarity\<close>, which has the same two loops
  and adds a boost to the score. Both are modelled; the loops are written once.

  \<open>maxDist = Math.floor(Math.max(len1, len2) / 2) - 1\<close>; it is \<open>-1\<close> when both strings
  have at most one character, so it is an \<^typ>\<open>int\<close>.
\<close>

definition maxDist :: "nat \<Rightarrow> nat \<Rightarrow> int" where
  "maxDist len1 len2 = int (max len1 len2 div 2) - 1"

text \<open>The bounds of the inner loop: \<open>j = Math.max(0, i - maxDist)\<close> and
  \<open>j < Math.min(len2, i + maxDist + 1)\<close>.\<close>

definition scanLo :: "int \<Rightarrow> nat \<Rightarrow> nat" where
  "scanLo d i = nat (max 0 (int i - d))"

definition scanHi :: "int \<Rightarrow> nat \<Rightarrow> nat \<Rightarrow> nat" where
  "scanHi d len2 i = nat (min (int len2) (int i + d + 1))"

text \<open>
  The inner loop stops at the first \<open>j\<close> of its range where the characters are equal and
  \<open>str2Matches[j]\<close> is still false: \<open>None\<close> when the range has no such \<open>j\<close>. Every
  \<open>j\<close> of the range is below \<open>len2\<close>, so no read is out of range.
\<close>

definition findMatch :: "string \<Rightarrow> string \<Rightarrow> bool list \<Rightarrow> int \<Rightarrow> nat \<Rightarrow> nat option" where
  "findMatch str1 str2 m2 d i =
     find (\<lambda>j. str1 ! i = str2 ! j \<and> \<not> m2 ! j) [scanLo d i ..< scanHi d (length str2) i]"

record match_state =
  str1Matches :: "bool list"
  str2Matches :: "bool list"
  matches :: nat

definition matchStep :: "string \<Rightarrow> string \<Rightarrow> int \<Rightarrow> match_state \<Rightarrow> nat \<Rightarrow> match_state" where
  "matchStep str1 str2 d s i =
     (case findMatch str1 str2 (str2Matches s) d i of
        None \<Rightarrow> s
      | Some j \<Rightarrow> \<lparr>str1Matches = (str1Matches s)[i := True],
                  str2Matches = (str2Matches s)[j := True],
                  matches = matches s + 1\<rparr>)"

definition matchLoop :: "string \<Rightarrow> string \<Rightarrow> int \<Rightarrow> match_state" where
  "matchLoop str1 str2 d =
     foldl (matchStep str1 str2 d)
       \<lparr>str1Matches = replicate (length str1) False,
        str2Matches = replicate (length str2) False,
        matches = 0\<rparr>
       [0..<length str1]"

text \<open>
  \<open>while (!str2Matches[k]) k++\<close>. Past the end of the array the read gives \<open>undefined\<close>,
  which is falsy, so the loop would never stop: that is \<open>None\<close>.
\<close>

function skipUnmatched :: "bool list \<Rightarrow> nat \<Rightarrow> nat option" where
  "skipUnmatched m2 k =
     (if length m2 \<le> k then None
      else if m2 ! k then Some k
      else skipUnmatched m2 (k + 1))"
  by pat_completeness auto
termination
  by (relation "measure (\<lambda>(m2, k). length m2 - k)") auto

declare skipUnmatched.simps [simp del]

text \<open>The second loop, with its state \<open>(k, transpositions)\<close>.\<close>

definition transStep ::
  "string \<Rightarrow> string \<Rightarrow> bool list \<Rightarrow> bool list \<Rightarrow> (nat \<times> nat) option \<Rightarrow> nat \<Rightarrow> (nat \<times> nat) option" where
  "transStep str1 str2 m1 m2 st i =
     (case st of
        None \<Rightarrow> None
      | Some (k, t) \<Rightarrow>
          if m1 ! i then
            (case skipUnmatched m2 k of
               None \<Rightarrow> None
             | Some k' \<Rightarrow> Some (k' + 1, if str1 ! i \<noteq> str2 ! k' then t + 1 else t))
          else Some (k, t))"

definition transLoop :: "string \<Rightarrow> string \<Rightarrow> bool list \<Rightarrow> bool list \<Rightarrow> (nat \<times> nat) option" where
  "transLoop str1 str2 m1 m2 = foldl (transStep str1 str2 m1 m2) (Some (0, 0)) [0..<length str1]"

text \<open>
  The score is a JavaScript number. The counts and lengths are integers. \<open>jaroScore\<close>,
  \<open>jaroSimilarity\<close> and \<open>jaroWinklerSimilarity\<close> compute the quotients exactly, as
  rationals; the same functions with every operation rounded to a double, as the code
  computes them, follow further down (\<open>jaroSimilarityWith\<close>, \<open>jaroWinklerSimilarityWith\<close>).
  \<open>transpositions /= 2\<close> is a division of numbers, not of integers.
\<close>

definition jaroScore :: "nat \<Rightarrow> nat \<Rightarrow> nat \<Rightarrow> nat \<Rightarrow> rat" where
  "jaroScore m t len1 len2 =
     (of_nat m / of_nat len1 + of_nat m / of_nat len2 + (of_nat m - of_nat t / 2) / of_nat m) / 3"

definition jaroSimilarity :: "string \<Rightarrow> string \<Rightarrow> rat option" where
  "jaroSimilarity str1 str2 =
     (if str1 = str2 then Some 1
      else
        let len1 = length str1;
            len2 = length str2;
            s = matchLoop str1 str2 (maxDist len1 len2)
        in if matches s = 0 then Some 0
           else (case transLoop str1 str2 (str1Matches s) (str2Matches s) of
                   None \<Rightarrow> None
                 | Some (k, t) \<Rightarrow> Some (jaroScore (matches s) t len1 len2)))"

text \<open>
  The last loop of \<open>jaroWinklerSimilarity\<close>: it visits every \<open>i\<close> below
  \<open>Math.min(str1.length, str2.length, 4)\<close> and counts those where the characters are
  equal; it has no \<open>break\<close>.
\<close>

definition prefixLength :: "string \<Rightarrow> string \<Rightarrow> nat" where
  "prefixLength str1 str2 =
     length (filter (\<lambda>i. str1 ! i = str2 ! i) [0..<min (length str1) (min (length str2) 4)])"

definition jaroWinklerSimilarity :: "string \<Rightarrow> string \<Rightarrow> rat option" where
  "jaroWinklerSimilarity str1 str2 =
     (if str1 = str2 then Some 1
      else
        let len1 = length str1;
            len2 = length str2;
            s = matchLoop str1 str2 (maxDist len1 len2)
        in if matches s = 0 then Some 0
           else (case transLoop str1 str2 (str1Matches s) (str2Matches s) of
                   None \<Rightarrow> None
                 | Some (k, t) \<Rightarrow>
                     let jaro = jaroScore (matches s) t len1 len2
                     in Some (jaro + of_nat (prefixLength str1 str2) * (1 / 4) * (1 - jaro))))"

section \<open>fuzzySearch.ts: the window search\<close>

text \<open>\<open>input.replace(/\r?\n/g, ' ')\<close>: every line break, with the carriage return before it
  if there is one, becomes one space.\<close>

fun collapseLines :: "string \<Rightarrow> string" where
  "collapseLines [] = []"
| "collapseLines (c # cs) =
     (if c = LF then CHR '' '' # collapseLines cs
      else if c = CR \<and> cs \<noteq> [] \<and> hd cs = LF then CHR '' '' # collapseLines (tl cs)
      else c # collapseLines cs)"

text \<open>\<open>input.slice(i, i + size)\<close> is \<open>take sz (drop i input)\<close>, for the window size \<open>sz\<close>.\<close>

definition toWindows :: "string \<Rightarrow> nat \<Rightarrow> string list" where
  "toWindows input sz =
     (if sz > length input then [input]
      else map (\<lambda>i. take sz (drop i input)) [0..<length input - sz + 1])"

text \<open>
  The callback of \<open>reduce\<close>, on the accumulator \<open>[index, distance]\<close>. The search is written
  once over the similarity function, since the two versions of the file differ only there.
\<close>

definition closer ::
  "(string \<Rightarrow> string \<Rightarrow> 'a::linorder option) \<Rightarrow> string \<Rightarrow> (nat \<times> 'a) option \<Rightarrow> nat \<times> string \<Rightarrow> (nat \<times> 'a) option" where
  "closer sim toFind prev ic =
     (case prev of
        None \<Rightarrow> None
      | Some p \<Rightarrow>
          (case sim (snd ic) toFind of
             None \<Rightarrow> None
           | Some distance \<Rightarrow> Some (if snd p < distance then (fst ic, distance) else p)))"

definition fuzzySearchWith ::
  "(string \<Rightarrow> string \<Rightarrow> 'a::linorder option) \<Rightarrow> string \<Rightarrow> string \<Rightarrow> string option" where
  "fuzzySearchWith sim input toFind =
     (let windows = toWindows (collapseLines input) (length toFind)
      in case sim (windows ! 0) toFind of
           None \<Rightarrow> None
         | Some d0 \<Rightarrow>
             (case foldl (closer sim toFind) (Some (0, d0)) (zip [0..<length windows] windows) of
                None \<Rightarrow> None
              | Some (closestIndex, d) \<Rightarrow> Some (windows ! closestIndex)))"

text \<open>The version of the file that scores with \<open>jaroSimilarity\<close>, and the one that scores
  with \<open>jaroWinklerSimilarity\<close>, both with exact scores. Two windows whose exact scores are
  equal can get different doubles, so where the code is meant the search is taken with the
  rounded scores.\<close>

definition fuzzySearchJaro :: "string \<Rightarrow> string \<Rightarrow> string option" where
  "fuzzySearchJaro = fuzzySearchWith jaroSimilarity"

definition fuzzySearch :: "string \<Rightarrow> string \<Rightarrow> string option" where
  "fuzzySearch = fuzzySearchWith jaroWinklerSimilarity"

section \<open>fuzzySearch.ts: the scores as the code computes them\<close>

text \<open>
  A JavaScript number is an IEEE 754 double, and every arithmetic operation of the code
  returns the exact result rounded to the nearest double, ties to even. The doubles that
  occur here are finite, so a double is taken as the rational number it denotes, and an
  operation of the code is the exact operation followed by the rounding.

  \<open>binary64\<close> is that rounding in the normal range: a number between \<open>2 ^ e\<close> and
  \<open>2 ^ (e + 1)\<close> is rounded to a multiple of \<open>2 ^ (e - 52)\<close>. Overflow and subnormal
  numbers are left out; scores between 0 and 1 built from string lengths do not reach them.
  \<open>bitLength n\<close> is the number of binary digits of \<open>n\<close>.
\<close>

function bitLength :: "int \<Rightarrow> int" where
  "bitLength n = (if n \<le> 0 then 0 else 1 + bitLength (n div 2))"
  by pat_completeness auto
termination
  by (relation "measure nat") auto

declare bitLength.simps [simp del]

definition pow2 :: "int \<Rightarrow> rat" where
  "pow2 k = (if 0 \<le> k then 2 ^ nat k else 1 / 2 ^ nat (- k))"

definition roundHalfEven :: "rat \<Rightarrow> int" where
  "roundHalfEven y =
     (let f = \<lfloor>y\<rfloor>; r = y - of_int f
      in if r < 1 / 2 then f else if 1 / 2 < r then f + 1 else if even f then f else f + 1)"

definition exponentOf :: "rat \<Rightarrow> int" where
  "exponentOf a = (if 1 \<le> a then bitLength \<lfloor>a\<rfloor> - 1 else - bitLength (\<lceil>1 / a\<rceil> - 1))"

definition binary64 :: "rat \<Rightarrow> rat" where
  "binary64 x =
     (if x = 0 then 0
      else let q = pow2 (exponentOf \<bar>x\<bar> - 52)
           in sgn x * of_int (roundHalfEven (\<bar>x\<bar> / q)) * q)"

text \<open>
  The two similarity functions with a rounding \<open>rnd\<close> after every operation, in the order
  in which the code evaluates them; the loops are those above. With \<open>rnd = binary64\<close> they
  are the scores the code computes, with the identity they are \<open>jaroSimilarity\<close> and
  \<open>jaroWinklerSimilarity\<close>. The search of the code is \<open>fuzzySearchWith\<close> of one of them.
\<close>

definition jaroScoreWith :: "(rat \<Rightarrow> rat) \<Rightarrow> nat \<Rightarrow> nat \<Rightarrow> nat \<Rightarrow> nat \<Rightarrow> rat" where
  "jaroScoreWith rnd m t len1 len2 =
     (let transpositions = rnd (of_nat t / 2)
      in rnd (rnd (rnd (rnd (of_nat m / of_nat len1) + rnd (of_nat m / of_nat len2)) +
                   rnd (rnd (of_nat m - transpositions) / of_nat m)) / 3))"

definition jaroSimilarityWith :: "(rat \<Rightarrow> rat) \<Rightarrow> string \<Rightarrow> string \<Rightarrow> rat option" where
  "jaroSimilarityWith rnd str1 str2 =
     (if str1 = str2 then Some 1
      else
        let len1 = length str1;
            len2 = length str2;
            s = matchLoop str1 str2 (maxDist len1 len2)
        in if matches s = 0 then Some 0
           else (case transLoop str1 str2 (str1Matches s) (str2Matches s) of
                   None \<Rightarrow> None
                 | Some (k, t) \<Rightarrow> Some (jaroScoreWith rnd (matches s) t len1 len2)))"

definition jaroWinklerSimilarityWith :: "(rat \<Rightarrow> rat) \<Rightarrow> string \<Rightarrow> string \<Rightarrow> rat option" where
  "jaroWinklerSimilarityWith rnd str1 str2 =
     (if str1 = str2 then Some 1
      else
        let len1 = length str1;
            len2 = length str2;
            s = matchLoop str1 str2 (maxDist len1 len2)
        in if matches s = 0 then Some 0
           else (case transLoop str1 str2 (str1Matches s) (str2Matches s) of
                   None \<Rightarrow> None
                 | Some (k, t) \<Rightarrow>
                     let jaro = jaroScoreWith rnd (matches s) t len1 len2
                     in Some (rnd (jaro + rnd (rnd (of_nat (prefixLength str1 str2) * (1 / 4)) *
                                               rnd (1 - jaro))))))"

section \<open>runner.ts: tests, processes and errors\<close>

text \<open>
  The model follows \<open>src/runner.ts\<close> in the version that imports \<open>fuzzySearch\<close>.

  The interface \<open>Test\<close>. The fields carry the prefix \<open>test_\<close>, since \<open>name\<close>, \<open>input\<close>,
  \<open>run\<close> and the others are also names of variables and functions of the code. A field of
  the JSON test file that is absent reads as \<open>undefined\<close>: that is \<open>None\<close>. The comparison is
  one of \<open>'exact'\<close>, \<open>'included'\<close> and \<open>'regex'\<close>.
\<close>

datatype TestComparison = Exact | Included | Regex

record Test =
  test_name :: string
  test_setup :: "string option"
  test_run :: string
  test_input :: "string option"
  test_output :: "string option"
  test_timeout :: "rat option"
  test_points :: "int option"
  test_extra :: "bool option"
  test_comparison :: "TestComparison option"

text \<open>\<open>!s || s == ''\<close> for an optional string, and \<open>s || ''\<close>.\<close>

definition blank :: "string option \<Rightarrow> bool" where
  "blank s = (case s of None \<Rightarrow> True | Some v \<Rightarrow> v = [])"

definition orEmpty :: "string option \<Rightarrow> string" where
  "orEmpty s = (case s of None \<Rightarrow> [] | Some v \<Rightarrow> v)"

text \<open>
  What \<open>waitForExit\<close> sees of a child process armed with a timeout: the promise resolves on
  exit code 0, and is rejected with a \<open>TestTimeoutError\<close> when the timer fires first, with a
  \<open>TestError\<close> on any other exit, and with the error of an \<open>'error'\<close> event. \<open>captured\<close> is
  what the handlers of \<open>stdout\<close> and \<open>stderr\<close> have appended to \<open>output\<close> by then.
\<close>

datatype exit_event = Resolved | TimerFired | ExitNonZero | ErrorEvent

record child =
  event :: exit_event
  captured :: string

text \<open>
  The outside world of one call of \<open>run\<close>: how the setup command and the run command behave
  under the timeout they are given, and what \<open>process.hrtime(start)\<close> returns after the
  setup, as seconds and nanoseconds.
\<close>

record world =
  setupChild :: "rat \<Rightarrow> child"
  elapsed :: "nat \<times> nat"
  runChild :: "rat \<Rightarrow> child"

text \<open>
  The errors \<open>run\<close> can throw, with the data their messages are built from. The first three
  come from \<open>waitForExit\<close> and carry the captured output; the others are the failed
  comparisons (actual text first) and the \<open>SyntaxError\<close> of \<open>new RegExp\<close>. The layout of the
  message text is not part of the model.
\<close>

datatype error =
    TestTimeoutError string
  | TestError string
  | Error string
  | ExactMismatch string string
  | TestOutputError string string
  | IncludedMismatch string string
  | SyntaxError string

definition awaitExit :: "child \<Rightarrow> error + string" where
  "awaitExit c =
     (case event c of
        Resolved \<Rightarrow> Inr (captured c)
      | TimerFired \<Rightarrow> Inl (TestTimeoutError (captured c))
      | ExitNonZero \<Rightarrow> Inl (TestError (captured c))
      | ErrorEvent \<Rightarrow> Inl (Error (captured c)))"

section \<open>runner.ts: comparing the output\<close>

text \<open>\<open>text.replace(/\r\n/gi, '\n').trim()\<close>. \<open>trim\<close> removes white space and line
  terminators at both ends; below 256 these are the code units 9 to 13, 32 and 160.\<close>

fun replaceCRLF :: "string \<Rightarrow> string" where
  "replaceCRLF [] = []"
| "replaceCRLF (c # cs) =
     (if c = CR \<and> cs \<noteq> [] \<and> hd cs = LF then LF # replaceCRLF (tl cs)
      else c # replaceCRLF cs)"

definition isWhiteSpace :: "char \<Rightarrow> bool" where
  "isWhiteSpace c = ((of_char c :: nat) \<in> set [9, 10, 11, 12, 13, 32, 160])"

definition trim :: "string \<Rightarrow> string" where
  "trim s = rev (dropWhile isWhiteSpace (rev (dropWhile isWhiteSpace s)))"

definition normalizeLineEndings :: "string \<Rightarrow> string" where
  "normalizeLineEndings s = trim (replaceCRLF s)"

text \<open>\<open>actual.includes(expected)\<close>: the expected text starts at some position of the actual
  one.\<close>

fun includesStr :: "string \<Rightarrow> string \<Rightarrow> bool" where
  "includesStr [] e = (e = [])"
| "includesStr (c # cs) e = (prefix e (c # cs) \<or> includesStr cs e)"

text \<open>The test of line 237: neither an expected output nor an input is declared.\<close>

definition noExpectation :: "Test \<Rightarrow> bool" where
  "noExpectation test = (blank (test_output test) \<and> blank (test_input test))"

text \<open>
  \<open>runCommand\<close>, after the child is spawned. The regular-expression engine is a parameter:
  \<open>rx pattern actual\<close> is \<open>None\<close> when \<open>new RegExp(pattern)\<close> throws, and else whether
  \<open>actual.match\<close> finds a match.
\<close>

definition compareIncluded :: "string \<Rightarrow> string \<Rightarrow> string \<Rightarrow> error + string" where
  "compareIncluded actual expected out =
     (if \<not> includesStr actual expected then Inl (IncludedMismatch actual expected) else Inr out)"

definition runCommand ::
  "(string \<Rightarrow> string \<Rightarrow> bool option) \<Rightarrow> Test \<Rightarrow> world \<Rightarrow> rat \<Rightarrow> error + string" where
  "runCommand rx test w timeout =
     (case awaitExit (runChild w timeout) of
        Inl e \<Rightarrow> Inl e
      | Inr out \<Rightarrow>
          if noExpectation test then Inr out
          else
            let expected = normalizeLineEndings (orEmpty (test_output test));
                actual = normalizeLineEndings out
            in (case test_comparison test of
                  Some Exact \<Rightarrow>
                    if actual \<noteq> expected then Inl (ExactMismatch actual expected) else Inr out
                | Some Regex \<Rightarrow>
                    (case rx (orEmpty (test_output test)) actual of
                       None \<Rightarrow> Inl (SyntaxError (orEmpty (test_output test)))
                     | Some found \<Rightarrow>
                         if \<not> found then Inl (TestOutputError (orEmpty (test_output test)) actual)
                         else Inr out)
                | Some Included \<Rightarrow> compareIncluded actual expected out
                | None \<Rightarrow> compareIncluded actual expected out))"

section \<open>runner.ts: one test\<close>

definition runSetup :: "Test \<Rightarrow> world \<Rightarrow> rat \<Rightarrow> error + unit" where
  "runSetup test w timeout =
     (if blank (test_setup test) then Inr ()
      else (case awaitExit (setupChild w timeout) of Inl e \<Rightarrow> Inl e | Inr out \<Rightarrow> Inr ()))"

text \<open>\<open>a || b\<close> on numbers, \<open>a\<close> possibly \<open>undefined\<close>: \<open>b\<close> when \<open>a\<close> is absent or zero.\<close>

definition orElse :: "rat option \<Rightarrow> rat \<Rightarrow> rat" where
  "orElse a b = (case a of None \<Rightarrow> b | Some v \<Rightarrow> if v = 0 then b else v)"

text \<open>\<open>(test.timeout || 1) * 60 * 1000 || 30000\<close>.\<close>

definition timeoutMs :: "Test \<Rightarrow> rat" where
  "timeoutMs test = orElse (Some (orElse (test_timeout test) 1 * 60 * 1000)) 30000"

text \<open>\<open>Math.floor(elapsed[0] * 1000 + elapsed[1] / 1000000)\<close>.\<close>

definition elapsedMs :: "nat \<times> nat \<Rightarrow> int" where
  "elapsedMs e = \<lfloor>(of_nat (fst e) * 1000 + of_nat (snd e) / 1000000 :: rat)\<rfloor>"

definition run ::
  "(string \<Rightarrow> string \<Rightarrow> bool option) \<Rightarrow> Test \<Rightarrow> world \<Rightarrow> error + string" where
  "run rx test w =
     (let timeout = timeoutMs test
      in case runSetup test w timeout of
           Inl e \<Rightarrow> Inl e
         | Inr u \<Rightarrow> runCommand rx test w (timeout - of_int (elapsedMs (elapsed w))))"

section \<open>runner.ts: the suite\<close>

text \<open>The variables \<open>runAll\<close> updates in its loop.\<close>

record tally =
  points :: int
  availablePoints :: int
  passed :: nat
  numtests :: nat
  hasPoints :: bool
  failed :: bool
  passing :: "string list"
  failing :: "string list"

text \<open>\<open>if (test.points)\<close> and \<open>if (!test.extra)\<close>.\<close>

definition pointsValue :: "Test \<Rightarrow> int" where
  "pointsValue test = (case test_points test of None \<Rightarrow> 0 | Some v \<Rightarrow> v)"

definition declaresPoints :: "Test \<Rightarrow> bool" where
  "declaresPoints test = (pointsValue test \<noteq> 0)"

definition isExtra :: "Test \<Rightarrow> bool" where
  "isExtra test = (case test_extra test of None \<Rightarrow> False | Some b \<Rightarrow> b)"

text \<open>
  The body of the loop. The test at position \<open>numtests\<close> of the list runs in the world
  \<open>w numtests\<close>. The block before \<open>run\<close> cannot throw, so its updates stay when the test
  fails.
\<close>

definition beforeRun :: "tally \<Rightarrow> Test \<Rightarrow> tally" where
  "beforeRun s test =
     (let s1 = s\<lparr>numtests := numtests s + 1\<rparr>
      in if declaresPoints test then
           s1\<lparr>hasPoints := True,
              availablePoints :=
                (if isExtra test then availablePoints s1
                 else availablePoints s1 + pointsValue test)\<rparr>
         else s1)"

definition testStep ::
  "(string \<Rightarrow> string \<Rightarrow> bool option) \<Rightarrow> (nat \<Rightarrow> world) \<Rightarrow> tally \<Rightarrow> Test \<Rightarrow> tally" where
  "testStep rx w s test =
     (let s2 = beforeRun s test
      in case run rx test (w (numtests s)) of
           Inr result \<Rightarrow>
             s2\<lparr>points := (if declaresPoints test then points s2 + pointsValue test else points s2),
                passing := passing s2 @ [test_name test],
                passed := passed s2 + 1\<rparr>
         | Inl err \<Rightarrow>
             s2\<lparr>failing := failing s2 @ [test_name test],
                failed := (if isExtra test then failed s2 else True)\<rparr>)"

definition startTally :: tally where
  "startTally =
     \<lparr>points = 0, availablePoints = 0, passed = 0, numtests = 0, hasPoints = False,
      failed = False, passing = [], failing = []\<rparr>"

text \<open>
  What \<open>runAll\<close> reports after the loop: the extra credit it logs when
  \<open>points > availablePoints\<close>, and the two numbers of the output \<open>Points\<close>.
\<close>

record report =
  final :: tally
  extraCreditPoints :: "int option"
  pointsOutput :: "int \<times> int"

definition runAll ::
  "(string \<Rightarrow> string \<Rightarrow> bool option) \<Rightarrow> (nat \<Rightarrow> world) \<Rightarrow> Test list \<Rightarrow> report" where
  "runAll rx w tests =
     (let s = foldl (testStep rx w) startTally tests
      in \<lparr>final = s,
          extraCreditPoints =
            (if points s > availablePoints s then Some (1 * (points s - availablePoints s))
             else None),
          pointsOutput =
            (if hasPoints s then (points s, availablePoints s)
             else (int (passed s), int (numtests s)))\<rparr>)"

section \<open>The similarity measure as the documentation describes it\<close>

text \<open>
  The comment above \<open>jaroWinklerSimilarity\<close> speaks of "the length of a common prefix up to
  four characters", and the specification of counting "equal leading characters up to 4
  positions". \<open>commonPrefixLength\<close> is that number; \<open>specSimilarity\<close> is the score the
  specification describes, the Jaro score raised by the common-prefix boost.
\<close>

definition commonPrefixLength :: "string \<Rightarrow> string \<Rightarrow> nat" where
  "commonPrefixLength a b = length (takeWhile (\<lambda>(x, y). x = y) (zip (take 4 a) (take 4 b)))"

definition boosted :: "nat \<Rightarrow> rat \<Rightarrow> rat" where
  "boosted prefixLen base = base + of_nat prefixLen * (1 / 4) * (1 - base)"

definition specSimilarity :: "string \<Rightarrow> string \<Rightarrow> rat option" where
  "specSimilarity a b = map_option (boosted (commonPrefixLength a b)) (jaroSimilarity a b)"

section \<open>Auxiliary notions for the proofs\<close>

text \<open>The number of entries of a flag array that are set, and the invariant of the first
  loop of the similarity measure after \<open>k\<close> rounds.\<close>

definition cnt :: "bool list \<Rightarrow> nat" where
  "cnt xs = length (filter id xs)"

definition matchInv :: "nat \<Rightarrow> nat \<Rightarrow> nat \<Rightarrow> match_state \<Rightarrow> bool" where
  "matchInv len1 len2 k s \<longleftrightarrow>
     length (str1Matches s) = len1 \<and> length (str2Matches s) = len2 \<and>
     cnt (str1Matches s) = matches s \<and> cnt (str2Matches s) = matches s \<and>
     (\<forall>i. k \<le> i \<and> i < len1 \<longrightarrow> \<not> str1Matches s ! i)"

text \<open>
  The pairs the first loop matches. \<open>compatible a b d i j\<close>: position \<open>j\<close> of \<open>b\<close> is in the
  range the inner loop scans for position \<open>i\<close> of \<open>a\<close>, and the characters are equal.
  \<open>greedyUpto a b d k G\<close>: \<open>G\<close> is the set of pairs matched in the first \<open>k\<close> rounds: every
  pair is compatible, no position is in two pairs, a matched position took the first free
  compatible position, and an unmatched one found none free. \<open>flagged\<close> ties the two flag
  arrays to the pairs.
\<close>

definition compatible :: "string \<Rightarrow> string \<Rightarrow> int \<Rightarrow> nat \<Rightarrow> nat \<Rightarrow> bool" where
  "compatible a b d i j \<longleftrightarrow>
     i < length a \<and> j < length b \<and> int i - d \<le> int j \<and> int j \<le> int i + d \<and> a ! i = b ! j"

definition greedyUpto :: "string \<Rightarrow> string \<Rightarrow> int \<Rightarrow> nat \<Rightarrow> (nat \<times> nat) set \<Rightarrow> bool" where
  "greedyUpto a b d k G \<longleftrightarrow>
     (\<forall>i j. (i, j) \<in> G \<longrightarrow> i < k \<and> compatible a b d i j) \<and>
     (\<forall>i j j'. (i, j) \<in> G \<and> (i, j') \<in> G \<longrightarrow> j = j') \<and>
     (\<forall>i i' j. (i, j) \<in> G \<and> (i', j) \<in> G \<longrightarrow> i = i') \<and>
     (\<forall>i j j'. (i, j) \<in> G \<and> j' < j \<and> compatible a b d i j' \<longrightarrow> (\<exists>i'<i. (i', j') \<in> G)) \<and>
     (\<forall>i j. i < k \<and> i \<notin> fst ` G \<and> compatible a b d i j \<longrightarrow> (\<exists>i'<i. (i', j) \<in> G))"

definition flagged :: "match_state \<Rightarrow> string \<Rightarrow> string \<Rightarrow> (nat \<times> nat) set \<Rightarrow> bool" where
  "flagged s a b G \<longleftrightarrow>
     length (str1Matches s) = length a \<and> length (str2Matches s) = length b \<and>
     (\<forall>i<length a. str1Matches s ! i \<longleftrightarrow> i \<in> fst ` G) \<and>
     (\<forall>j<length b. str2Matches s ! j \<longleftrightarrow> j \<in> snd ` G)"

text \<open>The matched characters of a string in their order, and the number of ranks at which
  two such sequences differ: what the second loop counts.\<close>

definition matchedChars :: "string \<Rightarrow> bool list \<Rightarrow> string" where
  "matchedChars s m = map fst (filter snd (zip s m))"

definition mismatches :: "string \<Rightarrow> string \<Rightarrow> nat" where
  "mismatches xs ys = length (filter (\<lambda>(x, y). x \<noteq> y) (zip xs ys))"

section \<open>Example inputs\<close>

text \<open>
  Tests and worlds for the concrete instances below: a test that declares points and
  nothing to compare, a test that expects \<open>Hello\<close>, a test with an input and no expected
  output; a world whose setup succeeds after 1.5 seconds and whose run command ends with a
  given event and output; and a regular-expression engine that rejects every pattern.
\<close>

definition plainTest :: "string \<Rightarrow> int \<Rightarrow> bool \<Rightarrow> Test" where
  "plainTest n p x =
     \<lparr>test_name = n, test_setup = None, test_run = ''./a.out'', test_input = None,
      test_output = None, test_timeout = None, test_points = Some p, test_extra = Some x,
      test_comparison = None\<rparr>"

definition helloTest :: "TestComparison \<Rightarrow> Test" where
  "helloTest c =
     \<lparr>test_name = ''hello'', test_setup = Some ''make'', test_run = ''./hello'',
      test_input = None, test_output = Some ''Hello'', test_timeout = Some 2,
      test_points = None, test_extra = None, test_comparison = Some c\<rparr>"

definition echoTest :: Test where
  "echoTest =
     \<lparr>test_name = ''echo'', test_setup = None, test_run = ''cat'', test_input = Some ''abc'',
      test_output = None, test_timeout = Some 0, test_points = None, test_extra = None,
      test_comparison = Some Included\<rparr>"

definition simpleWorld :: "exit_event \<Rightarrow> string \<Rightarrow> world" where
  "simpleWorld ev out =
     \<lparr>setupChild = (\<lambda>t. \<lparr>event = Resolved, captured = []\<rparr>),
      elapsed = (1, 500000000),
      runChild = (\<lambda>t. \<lparr>event = ev, captured = out\<rparr>)\<rparr>"

definition noRegex :: "string \<Rightarrow> string \<Rightarrow> bool option" where
  "noRegex pattern actual = None"

section \<open>The similarity measure always returns\<close>

text \<open>
  The first loop sets one flag in each array at every match, so both arrays hold \<open>matches\<close>
  set flags when it ends. The second loop therefore finds a set flag of \<open>str2Matches\<close> for
  every set flag of \<open>str1Matches\<close>, and \<open>k\<close> never runs past the end.
\<close>

lemma cnt_simps [simp]: "cnt [] = 0" "cnt (x # xs) = (if x then 1 else 0) + cnt xs"
  by (simp_all add: cnt_def)

lemma cnt_replicate_False [simp]: "cnt (replicate n False) = 0"
  by (induction n) simp_all

lemma cnt_update_True:
  "i < length xs \<Longrightarrow> \<not> xs ! i \<Longrightarrow> cnt (xs[i := True]) = cnt xs + 1"
proof (induction xs arbitrary: i)
  case Nil
  then show ?case by simp
next
  case (Cons x xs)
  then show ?case by (cases i) auto
qed

lemma findMatch_Some:
  assumes "findMatch str1 str2 m2 d i = Some j"
  shows "j < length str2" and "\<not> m2 ! j" and "str1 ! i = str2 ! j"
    and "scanLo d i \<le> j" and "j < scanHi d (length str2) i"
proof -
  from assms have *: "j \<in> set [scanLo d i ..< scanHi d (length str2) i]" "str1 ! i = str2 ! j \<and> \<not> m2 ! j"
    unfolding findMatch_def by (auto simp: find_Some_iff in_set_conv_nth)
  from * show "\<not> m2 ! j" "str1 ! i = str2 ! j" by simp_all
  from * show "scanLo d i \<le> j" "j < scanHi d (length str2) i" by simp_all
  from * have "j < scanHi d (length str2) i" by simp
  then show "j < length str2" unfolding scanHi_def by linarith
qed

lemma matchStep_inv:
  assumes "matchInv (length str1) (length str2) k s" "k < length str1"
  shows "matchInv (length str1) (length str2) (Suc k) (matchStep str1 str2 d s k)"
proof (cases "findMatch str1 str2 (str2Matches s) d k")
  case None
  with assms show ?thesis by (auto simp: matchStep_def matchInv_def)
next
  case (Some j)
  note fm = findMatch_Some[OF Some]
  from assms fm show ?thesis
    by (auto simp: matchStep_def matchInv_def Some cnt_update_True)
qed

lemma matchLoop_prefix_inv:
  "k \<le> length str1 \<Longrightarrow>
   matchInv (length str1) (length str2) k
     (foldl (matchStep str1 str2 d)
        \<lparr>str1Matches = replicate (length str1) False,
         str2Matches = replicate (length str2) False, matches = 0\<rparr> [0..<k])"
proof (induction k)
  case 0
  then show ?case by (simp add: matchInv_def)
next
  case (Suc k)
  then show ?case by (simp add: matchStep_inv)
qed

lemma matchLoop_inv:
  "matchInv (length str1) (length str2) (length str1) (matchLoop str1 str2 d)"
  unfolding matchLoop_def by (rule matchLoop_prefix_inv) simp

lemma skipUnmatched_Some:
  "0 < cnt (drop k m2) \<Longrightarrow>
   \<exists>k'. skipUnmatched m2 k = Some k' \<and> k \<le> k' \<and> k' < length m2 \<and> m2 ! k' \<and>
        cnt (drop k m2) = cnt (drop (Suc k') m2) + 1"
proof (induction m2 k rule: skipUnmatched.induct)
  case (1 m2 k)
  show ?case
  proof (cases "length m2 \<le> k")
    case True
    with "1.prems" show ?thesis by simp
  next
    case False
    then have d: "drop k m2 = m2 ! k # drop (Suc k) m2"
      by (simp add: Cons_nth_drop_Suc)
    show ?thesis
    proof (cases "m2 ! k")
      case True
      with False d show ?thesis
        by (subst skipUnmatched.simps) simp
    next
      case nk: False
      with d "1.prems" have "0 < cnt (drop (k + 1) m2)" by simp
      from "1.IH"[OF False nk this] obtain k' where
        "skipUnmatched m2 (k + 1) = Some k'" "k + 1 \<le> k'" "k' < length m2" "m2 ! k'"
        "cnt (drop (k + 1) m2) = cnt (drop (Suc k') m2) + 1" by blast
      with False nk d show ?thesis
        by (subst skipUnmatched.simps) simp
    qed
  qed
qed

lemma transLoop_prefix:
  "n \<le> length m1 \<Longrightarrow> cnt m1 \<le> cnt m2 \<Longrightarrow>
   \<exists>k t. foldl (transStep str1 str2 m1 m2) (Some (0, 0)) [0..<n] = Some (k, t) \<and>
         cnt (drop n m1) \<le> cnt (drop k m2)"
proof (induction n)
  case 0
  then show ?case by simp
next
  case (Suc n)
  then obtain k t where st: "foldl (transStep str1 str2 m1 m2) (Some (0, 0)) [0..<n] = Some (k, t)"
    and le: "cnt (drop n m1) \<le> cnt (drop k m2)" by auto
  from Suc.prems have d: "drop n m1 = m1 ! n # drop (Suc n) m1"
    by (simp add: Cons_nth_drop_Suc)
  have step: "foldl (transStep str1 str2 m1 m2) (Some (0, 0)) [0..<Suc n] =
      transStep str1 str2 m1 m2 (Some (k, t)) n"
    using st by simp
  show ?case
  proof (cases "m1 ! n")
    case True
    with d le have "0 < cnt (drop k m2)" by simp
    from skipUnmatched_Some[OF this] obtain k' where
      k': "skipUnmatched m2 k = Some k'" "cnt (drop k m2) = cnt (drop (Suc k') m2) + 1" by blast
    with True d le show ?thesis unfolding step by (simp add: transStep_def)
  next
    case False
    with d le show ?thesis unfolding step by (simp add: transStep_def)
  qed
qed

lemma transLoop_matchLoop_Some:
  "\<exists>k t. transLoop str1 str2 (str1Matches (matchLoop str1 str2 d)) (str2Matches (matchLoop str1 str2 d)) = Some (k, t)"
proof -
  let ?s = "matchLoop str1 str2 d"
  from matchLoop_inv[of str1 str2 d] have "length (str1Matches ?s) = length str1" "cnt (str1Matches ?s) \<le> cnt (str2Matches ?s)"
    by (simp_all add: matchInv_def)
  with transLoop_prefix[of "length str1" "str1Matches ?s" "str2Matches ?s" str1 str2]
  show ?thesis unfolding transLoop_def by auto
qed

lemma jaroSimilarity_total: "\<exists>r. jaroSimilarity str1 str2 = Some r"
  using transLoop_matchLoop_Some[of str1 str2 "maxDist (length str1) (length str2)"]
  by (auto simp: jaroSimilarity_def Let_def)

lemma jaroWinklerSimilarity_total: "\<exists>r. jaroWinklerSimilarity str1 str2 = Some r"
  using transLoop_matchLoop_Some[of str1 str2 "maxDist (length str1) (length str2)"]
  by (auto simp: jaroWinklerSimilarity_def Let_def)

section \<open>The window search returns the leftmost best window\<close>

text \<open>
  These lemmas hold for every similarity function that always returns, with scores in any
  linear order: they do not depend on how the score is rounded.
\<close>

lemma toWindows_nonempty: "toWindows input sz \<noteq> []"
  by (simp add: toWindows_def)

lemma closer_fold_prefix:
  fixes sim :: "string \<Rightarrow> string \<Rightarrow> 'a::linorder option"
  assumes total: "\<And>a b. \<exists>r. sim a b = Some r"
    and ne: "ws \<noteq> []" and n: "n \<le> length ws"
    and d0: "sim (ws ! 0) toFind = Some d0"
  shows "\<exists>k d. foldl (closer sim toFind) (Some (0, d0)) (take n (zip [0..<length ws] ws)) = Some (k, d) \<and>
           k < length ws \<and> sim (ws ! k) toFind = Some d \<and>
           (\<forall>j<n. \<exists>e. sim (ws ! j) toFind = Some e \<and> e \<le> d) \<and>
           (\<forall>j<k. \<exists>e. sim (ws ! j) toFind = Some e \<and> e < d)"
  using n
proof (induction n)
  case 0
  from ne d0 show ?case by simp
next
  case (Suc n)
  then obtain k d where
    acc: "foldl (closer sim toFind) (Some (0, d0)) (take n (zip [0..<length ws] ws)) = Some (k, d)"
    and k: "k < length ws" and dk: "sim (ws ! k) toFind = Some d"
    and le: "\<forall>j<n. \<exists>e. sim (ws ! j) toFind = Some e \<and> e \<le> d"
    and lt: "\<forall>j<k. \<exists>e. sim (ws ! j) toFind = Some e \<and> e < d"
    by auto
  from Suc.prems have nlt: "n < length ws" by simp
  from total obtain e where e: "sim (ws ! n) toFind = Some e" by blast
  from nlt have tk: "take (Suc n) (zip [0..<length ws] ws) = take n (zip [0..<length ws] ws) @ [(n, ws ! n)]"
    by (simp add: take_Suc_conv_app_nth)
  have step: "foldl (closer sim toFind) (Some (0, d0)) (take (Suc n) (zip [0..<length ws] ws)) =
      Some (if d < e then (n, e) else (k, d))"
    unfolding tk using acc e by (simp add: closer_def)
  show ?case
  proof (cases "d < e")
    case True
    have lt': "\<forall>j<n. \<exists>e'. sim (ws ! j) toFind = Some e' \<and> e' < e"
    proof (intro allI impI)
      fix j assume "j < n"
      with le obtain e' where "sim (ws ! j) toFind = Some e'" "e' \<le> d" by blast
      with True show "\<exists>e'. sim (ws ! j) toFind = Some e' \<and> e' < e" by auto
    qed
    have "\<forall>j<Suc n. \<exists>e'. sim (ws ! j) toFind = Some e' \<and> e' \<le> e"
    proof (intro allI impI)
      fix j assume "j < Suc n"
      then consider "j < n" | "j = n" by linarith
      then show "\<exists>e'. sim (ws ! j) toFind = Some e' \<and> e' \<le> e"
      proof cases
        case 1
        with lt' show ?thesis by (meson less_imp_le)
      next
        case 2
        with e show ?thesis by simp
      qed
    qed
    moreover note lt'
    ultimately show ?thesis using step True nlt e by auto
  next
    case False
    have "\<forall>j<Suc n. \<exists>e'. sim (ws ! j) toFind = Some e' \<and> e' \<le> d"
    proof (intro allI impI)
      fix j assume "j < Suc n"
      then consider "j < n" | "j = n" by linarith
      then show "\<exists>e'. sim (ws ! j) toFind = Some e' \<and> e' \<le> d"
      proof cases
        case 1
        with le show ?thesis by blast
      next
        case 2
        with e False show ?thesis by simp
      qed
    qed
    then show ?thesis using step False k dk lt by auto
  qed
qed

lemma fuzzySearchWith_leftmost_max:
  fixes sim :: "string \<Rightarrow> string \<Rightarrow> 'a::linorder option"
  assumes total: "\<And>a b. \<exists>r. sim a b = Some r"
  shows "\<exists>k d. k < length (toWindows (collapseLines input) (length toFind)) \<and>
           fuzzySearchWith sim input toFind = Some (toWindows (collapseLines input) (length toFind) ! k) \<and>
           sim (toWindows (collapseLines input) (length toFind) ! k) toFind = Some d \<and>
           (\<forall>j<length (toWindows (collapseLines input) (length toFind)).
              \<exists>e. sim (toWindows (collapseLines input) (length toFind) ! j) toFind = Some e \<and> e \<le> d) \<and>
           (\<forall>j<k. \<exists>e. sim (toWindows (collapseLines input) (length toFind) ! j) toFind = Some e \<and> e < d)"
proof -
  let ?ws = "toWindows (collapseLines input) (length toFind)"
  from total obtain d0 where d0: "sim (?ws ! 0) toFind = Some d0" by blast
  have "?ws \<noteq> []" by (rule toWindows_nonempty)
  from closer_fold_prefix[of sim ?ws "length ?ws" toFind d0, OF total this order_refl d0]
  obtain k d where
    f: "foldl (closer sim toFind) (Some (0, d0)) (zip [0..<length ?ws] ?ws) = Some (k, d)"
    and r: "k < length ?ws" "sim (?ws ! k) toFind = Some d"
    "\<forall>j<length ?ws. \<exists>e. sim (?ws ! j) toFind = Some e \<and> e \<le> d"
    "\<forall>j<k. \<exists>e. sim (?ws ! j) toFind = Some e \<and> e < d"
    by auto
  from d0 f have "fuzzySearchWith sim input toFind = Some (?ws ! k)"
    by (simp add: fuzzySearchWith_def Let_def)
  with r show ?thesis by blast
qed

section \<open>The greedy matching does not depend on the order of the arguments\<close>

text \<open>
  The range scanned for \<open>i\<close> holds \<open>j\<close> exactly when the range scanned for \<open>j\<close>, with the
  strings exchanged, holds \<open>i\<close>. The set of pairs matched by the loop is the only set with
  the properties of \<open>greedyUpto\<close>, and its converse has them for the exchanged strings: so
  the loop matches the same pairs both ways, and the flag arrays are exchanged.
\<close>

lemma compatible_sym: "compatible a b d i j \<longleftrightarrow> compatible b a d j i"
  by (auto simp: compatible_def)

lemma greedyUpto_converse:
  assumes g: "greedyUpto a b d (length a) G"
  shows "greedyUpto b a d (length b) (G\<inverse>)"
proof -
  from g have r1: "\<And>i j. (i, j) \<in> G \<Longrightarrow> i < length a \<and> compatible a b d i j"
    and r2: "\<And>i j j'. (i, j) \<in> G \<Longrightarrow> (i, j') \<in> G \<Longrightarrow> j = j'"
    and r3: "\<And>i i' j. (i, j) \<in> G \<Longrightarrow> (i', j) \<in> G \<Longrightarrow> i = i'"
    and r4: "\<And>i j j'. (i, j) \<in> G \<Longrightarrow> j' < j \<Longrightarrow> compatible a b d i j' \<Longrightarrow> \<exists>i'<i. (i', j') \<in> G"
    and r5: "\<And>i j. i < length a \<Longrightarrow> i \<notin> fst ` G \<Longrightarrow> compatible a b d i j \<Longrightarrow> \<exists>i'<i. (i', j) \<in> G"
    unfolding greedyUpto_def by blast+
  have matched_below: "\<exists>j'<j. (i, j') \<in> G"
    if c: "compatible a b d i j" and nj: "\<And>i'. i' < i \<Longrightarrow> (i', j) \<notin> G" and ni: "(i, j) \<notin> G" for i j
  proof -
    from c have il: "i < length a" by (simp add: compatible_def)
    have "i \<in> fst ` G"
    proof (rule ccontr)
      assume "i \<notin> fst ` G"
      from r5[OF il this c] nj show False by blast
    qed
    then obtain j' where m: "(i, j') \<in> G" by force
    with ni have "j' \<noteq> j" by blast
    moreover have "\<not> j < j'"
    proof
      assume "j < j'"
      from r4[OF m this c] nj show False by blast
    qed
    ultimately have "j' < j" by linarith
    with m show ?thesis by blast
  qed
  have s1: "\<forall>j i. (j, i) \<in> G\<inverse> \<longrightarrow> j < length b \<and> compatible b a d j i"
  proof (intro allI impI)
    fix j i assume "(j, i) \<in> G\<inverse>"
    then have "compatible a b d i j" using r1 by blast
    then show "j < length b \<and> compatible b a d j i"
      using compatible_sym[of a b d i j] by (simp add: compatible_def)
  qed
  have s4: "\<forall>j i i'. (j, i) \<in> G\<inverse> \<and> i' < i \<and> compatible b a d j i' \<longrightarrow> (\<exists>j'<j. (j', i') \<in> G\<inverse>)"
  proof (intro allI impI, elim conjE)
    fix j i i' assume m: "(j, i) \<in> G\<inverse>" and lt: "i' < i" and c: "compatible b a d j i'"
    from m have mg: "(i, j) \<in> G" by simp
    from c have c': "compatible a b d i' j" by (simp add: compatible_sym)
    have "\<And>i''. i'' < i' \<Longrightarrow> (i'', j) \<notin> G"
      using r3[OF mg] lt by fastforce
    moreover have "(i', j) \<notin> G" using r3[OF mg] lt by fastforce
    ultimately obtain j' where "j' < j" "(i', j') \<in> G"
      using matched_below[OF c'] by blast
    then show "\<exists>j'<j. (j', i') \<in> G\<inverse>" by auto
  qed
  have s5: "\<forall>j i. j < length b \<and> j \<notin> fst ` (G\<inverse>) \<and> compatible b a d j i \<longrightarrow> (\<exists>j'<j. (j', i) \<in> G\<inverse>)"
  proof (intro allI impI, elim conjE)
    fix j i assume nm: "j \<notin> fst ` (G\<inverse>)" and c: "compatible b a d j i"
    from c have c': "compatible a b d i j" by (simp add: compatible_sym)
    from nm have "\<And>i'. (i', j) \<notin> G" by force
    then obtain j' where "j' < j" "(i, j') \<in> G"
      using matched_below[OF c'] by blast
    then show "\<exists>j'<j. (j', i) \<in> G\<inverse>" by auto
  qed
  have s2: "\<forall>j i i'. (j, i) \<in> G\<inverse> \<and> (j, i') \<in> G\<inverse> \<longrightarrow> i = i'"
    using r3 by blast
  have s3: "\<forall>j j' i. (j, i) \<in> G\<inverse> \<and> (j', i) \<in> G\<inverse> \<longrightarrow> j = j'"
    using r2 by blast
  from s1 s2 s3 s4 s5 show ?thesis
    unfolding greedyUpto_def by blast
qed

lemma greedyUpto_row:
  assumes g: "greedyUpto a b d k G" and h: "greedyUpto a b d k H"
    and agree: "\<forall>i'<i. \<forall>j'. (i', j') \<in> G \<longleftrightarrow> (i', j') \<in> H"
    and m: "(i, j) \<in> G"
  shows "(i, j) \<in> H"
proof -
  from g have g1: "\<And>i j. (i, j) \<in> G \<Longrightarrow> i < k \<and> compatible a b d i j"
    and g3: "\<And>i i' j. (i, j) \<in> G \<Longrightarrow> (i', j) \<in> G \<Longrightarrow> i = i'"
    and g4: "\<And>i j j'. (i, j) \<in> G \<Longrightarrow> j' < j \<Longrightarrow> compatible a b d i j' \<Longrightarrow> \<exists>i'<i. (i', j') \<in> G"
    unfolding greedyUpto_def by blast+
  from h have h1: "\<And>i j. (i, j) \<in> H \<Longrightarrow> i < k \<and> compatible a b d i j"
    and h3: "\<And>i i' j. (i, j) \<in> H \<Longrightarrow> (i', j) \<in> H \<Longrightarrow> i = i'"
    and h4: "\<And>i j j'. (i, j) \<in> H \<Longrightarrow> j' < j \<Longrightarrow> compatible a b d i j' \<Longrightarrow> \<exists>i'<i. (i', j') \<in> H"
    and h5: "\<And>i j. i < k \<Longrightarrow> i \<notin> fst ` H \<Longrightarrow> compatible a b d i j \<Longrightarrow> \<exists>i'<i. (i', j) \<in> H"
    unfolding greedyUpto_def by blast+
  from g1[OF m] have ik: "i < k" and c: "compatible a b d i j" by simp_all
  have noG: "\<And>i'. i' < i \<Longrightarrow> (i', j) \<notin> G"
    using g3[OF m] by fastforce
  then have noH: "\<And>i'. i' < i \<Longrightarrow> (i', j) \<notin> H"
    using agree by blast
  have "i \<in> fst ` H"
  proof (rule ccontr)
    assume "i \<notin> fst ` H"
    from h5[OF ik this c] noH show False by blast
  qed
  then obtain j' where mh: "(i, j') \<in> H" by force
  have "\<not> j' < j"
  proof
    assume lt: "j' < j"
    from h1[OF mh] have "compatible a b d i j'" by simp
    from g4[OF m lt this] obtain i' where i': "i' < i" "(i', j') \<in> G" by blast
    with agree have "(i', j') \<in> H" by blast
    from h3[OF mh this] i'(1) show False by simp
  qed
  moreover have "\<not> j < j'"
  proof
    assume lt: "j < j'"
    from h4[OF mh lt c] noH show False by blast
  qed
  ultimately have "j' = j" by linarith
  with mh show ?thesis by simp
qed

lemma greedyUpto_agree:
  assumes g: "greedyUpto a b d k G" and h: "greedyUpto a b d k H"
  shows "(i, j) \<in> G \<longleftrightarrow> (i, j) \<in> H"
proof (induction i arbitrary: j rule: less_induct)
  case (less i)
  have 1: "\<forall>i'<i. \<forall>j'. (i', j') \<in> G \<longleftrightarrow> (i', j') \<in> H"
    using less.IH by blast
  then have 2: "\<forall>i'<i. \<forall>j'. (i', j') \<in> H \<longleftrightarrow> (i', j') \<in> G"
    by blast
  show ?case
  proof
    assume "(i, j) \<in> G"
    then show "(i, j) \<in> H" by (rule greedyUpto_row[OF g h 1])
  next
    assume "(i, j) \<in> H"
    then show "(i, j) \<in> G" by (rule greedyUpto_row[OF h g 2])
  qed
qed

lemma greedyUpto_unique:
  "greedyUpto a b d k G \<Longrightarrow> greedyUpto a b d k H \<Longrightarrow> G = H"
proof (rule set_eqI)
  fix p :: "nat \<times> nat"
  assume "greedyUpto a b d k G" "greedyUpto a b d k H"
  from greedyUpto_agree[OF this, of "fst p" "snd p"] show "p \<in> G \<longleftrightarrow> p \<in> H" by simp
qed

lemma in_scan_range:
  "k < length a \<Longrightarrow>
   (scanLo d k \<le> j \<and> j < scanHi d (length b) k \<and> a ! k = b ! j) \<longleftrightarrow> compatible a b d k j"
  by (auto simp: scanLo_def scanHi_def compatible_def)

lemma findMatch_None_flags:
  assumes "findMatch a b m2 d k = None" and "k < length a" and "compatible a b d k j"
  shows "m2 ! j"
proof -
  from assms(2,3) have "j \<in> set [scanLo d k ..< scanHi d (length b) k]" "a ! k = b ! j"
    using in_scan_range[of k a d j b] by simp_all
  with assms(1) show ?thesis
    unfolding findMatch_def find_None_iff by blast
qed

lemma findMatch_Some_first:
  assumes "findMatch a b m2 d k = Some j" and "k < length a" and "j' < j" and "compatible a b d k j'"
  shows "m2 ! j'"
proof -
  let ?lo = "scanLo d k" and ?hi = "scanHi d (length b) k"
  from assms(1) obtain i where i: "i < length [?lo ..< ?hi]" "j = [?lo ..< ?hi] ! i"
    and first: "\<forall>i'<i. \<not> (a ! k = b ! ([?lo ..< ?hi] ! i') \<and> \<not> m2 ! ([?lo ..< ?hi] ! i'))"
    unfolding findMatch_def find_Some_iff by blast
  from i have j: "j = ?lo + i" by simp
  from assms(2,4) have r: "?lo \<le> j'" "a ! k = b ! j'"
    using in_scan_range[of k a d j' b] by simp_all
  with assms(3) j have lt: "j' - ?lo < i" by linarith
  with i(1) have "[?lo ..< ?hi] ! (j' - ?lo) = j'" using r(1) by simp
  with first lt r(2) show ?thesis by metis
qed

lemma findMatch_Some_compatible:
  assumes "findMatch a b m2 d k = Some j" and "k < length a"
  shows "compatible a b d k j" and "\<not> m2 ! j"
  using findMatch_Some[OF assms(1)] in_scan_range[of k a d j b] assms(2) by simp_all

lemma greedy_step_None:
  assumes k: "k < length a" and g: "greedyUpto a b d k G" and f: "flagged s a b G"
    and n: "findMatch a b (str2Matches s) d k = None"
  shows "greedyUpto a b d (Suc k) G"
proof -
  from g have r1: "\<And>i j. (i, j) \<in> G \<Longrightarrow> i < k \<and> compatible a b d i j"
    and r5: "\<And>i j. i < k \<Longrightarrow> i \<notin> fst ` G \<Longrightarrow> compatible a b d i j \<Longrightarrow> \<exists>i'<i. (i', j) \<in> G"
    unfolding greedyUpto_def by blast+
  have new: "\<exists>i'<k. (i', j) \<in> G" if c: "compatible a b d k j" for j
  proof -
    from findMatch_None_flags[OF n k c] have "str2Matches s ! j" .
    moreover from c have "j < length b" by (simp add: compatible_def)
    ultimately have "j \<in> snd ` G" using f by (simp add: flagged_def)
    then obtain i' where "(i', j) \<in> G" by force
    with r1 show ?thesis by blast
  qed
  have s5: "\<forall>i j. i < Suc k \<and> i \<notin> fst ` G \<and> compatible a b d i j \<longrightarrow> (\<exists>i'<i. (i', j) \<in> G)"
  proof (intro allI impI, elim conjE)
    fix i j assume "i < Suc k" "i \<notin> fst ` G" "compatible a b d i j"
    then show "\<exists>i'<i. (i', j) \<in> G"
      using r5[of i j] new[of j] by (cases "i = k") auto
  qed
  have s1: "\<forall>i j. (i, j) \<in> G \<longrightarrow> i < Suc k \<and> compatible a b d i j"
    using r1 by (meson less_Suc_eq)
  from g s1 s5 show ?thesis unfolding greedyUpto_def by blast
qed

lemma greedy_step_Some:
  assumes k: "k < length a" and g: "greedyUpto a b d k G" and f: "flagged s a b G"
    and m: "findMatch a b (str2Matches s) d k = Some j"
  shows "greedyUpto a b d (Suc k) (insert (k, j) G)"
proof -
  from g have r1: "\<And>i j. (i, j) \<in> G \<Longrightarrow> i < k \<and> compatible a b d i j"
    and r2: "\<And>i j j'. (i, j) \<in> G \<Longrightarrow> (i, j') \<in> G \<Longrightarrow> j = j'"
    and r3: "\<And>i i' j. (i, j) \<in> G \<Longrightarrow> (i', j) \<in> G \<Longrightarrow> i = i'"
    and r4: "\<And>i j j'. (i, j) \<in> G \<Longrightarrow> j' < j \<Longrightarrow> compatible a b d i j' \<Longrightarrow> \<exists>i'<i. (i', j') \<in> G"
    and r5: "\<And>i j. i < k \<Longrightarrow> i \<notin> fst ` G \<Longrightarrow> compatible a b d i j \<Longrightarrow> \<exists>i'<i. (i', j) \<in> G"
    unfolding greedyUpto_def by blast+
  note c = findMatch_Some_compatible[OF m k]
  from c(1) have jl: "j < length b" by (simp add: compatible_def)
  with c(2) f have jn: "\<And>i. (i, j) \<notin> G" by (force simp: flagged_def)
  from r1 have kn: "\<And>j'. (k, j') \<notin> G" by blast
  have used: "\<exists>i'<k. (i', j') \<in> G" if "j' < j" "compatible a b d k j'" for j'
  proof -
    from findMatch_Some_first[OF m k that] have "str2Matches s ! j'" .
    moreover from that(2) have "j' < length b" by (simp add: compatible_def)
    ultimately have "j' \<in> snd ` G" using f by (simp add: flagged_def)
    then obtain i' where "(i', j') \<in> G" by force
    with r1 show ?thesis by blast
  qed
  let ?G = "insert (k, j) G"
  have s1: "\<forall>i j'. (i, j') \<in> ?G \<longrightarrow> i < Suc k \<and> compatible a b d i j'"
    using r1 c(1) by (auto simp: less_Suc_eq)
  have s2: "\<forall>i j1 j2. (i, j1) \<in> ?G \<and> (i, j2) \<in> ?G \<longrightarrow> j1 = j2"
    using r2 kn by auto
  have s3: "\<forall>i1 i2 j'. (i1, j') \<in> ?G \<and> (i2, j') \<in> ?G \<longrightarrow> i1 = i2"
    using r3 jn by auto
  have s4: "\<forall>i j1 j'. (i, j1) \<in> ?G \<and> j' < j1 \<and> compatible a b d i j' \<longrightarrow> (\<exists>i'<i. (i', j') \<in> ?G)"
  proof (intro allI impI, elim conjE)
    fix i j1 j' assume a: "(i, j1) \<in> ?G" "j' < j1" "compatible a b d i j'"
    show "\<exists>i'<i. (i', j') \<in> ?G"
    proof (cases "(i, j1) = (k, j)")
      case True
      with a used[of j'] show ?thesis by auto
    next
      case False
      with a(1) have "(i, j1) \<in> G" by blast
      from r4[OF this a(2,3)] show ?thesis by auto
    qed
  qed
  have s5: "\<forall>i j'. i < Suc k \<and> i \<notin> fst ` ?G \<and> compatible a b d i j' \<longrightarrow> (\<exists>i'<i. (i', j') \<in> ?G)"
  proof (intro allI impI, elim conjE)
    fix i j' assume a: "i < Suc k" "i \<notin> fst ` ?G" "compatible a b d i j'"
    from a(2) have "i \<noteq> k" "i \<notin> fst ` G" by auto
    with a(1) have "i < k" by simp
    from r5[OF this \<open>i \<notin> fst ` G\<close> a(3)] show "\<exists>i'<i. (i', j') \<in> ?G" by auto
  qed
  from s1 s2 s3 s4 s5 show ?thesis unfolding greedyUpto_def by blast
qed

lemma flagged_step_Some:
  assumes k: "k < length a" and f: "flagged s a b G"
    and m: "findMatch a b (str2Matches s) d k = Some j"
  shows "flagged (matchStep a b d s k) a b (insert (k, j) G)"
proof -
  from findMatch_Some(1)[OF m] have jl: "j < length b" .
  from f have l: "length (str1Matches s) = length a" "length (str2Matches s) = length b"
    and f1: "\<forall>i<length a. str1Matches s ! i \<longleftrightarrow> i \<in> fst ` G"
    and f2: "\<forall>j<length b. str2Matches s ! j \<longleftrightarrow> j \<in> snd ` G"
    unfolding flagged_def by blast+
  have st: "matchStep a b d s k =
      \<lparr>str1Matches = (str1Matches s)[k := True], str2Matches = (str2Matches s)[j := True],
       matches = matches s + 1\<rparr>"
    using m by (simp add: matchStep_def)
  show ?thesis
    unfolding st flagged_def using l f1 f2 k jl
    by (auto simp: nth_list_update)
qed

lemma greedy_loop:
  "k \<le> length a \<Longrightarrow>
   \<exists>G. greedyUpto a b d k G \<and>
       flagged (foldl (matchStep a b d)
          \<lparr>str1Matches = replicate (length a) False,
           str2Matches = replicate (length b) False, matches = 0\<rparr> [0..<k]) a b G"
proof (induction k)
  case 0
  have "greedyUpto a b d 0 {}" by (simp add: greedyUpto_def)
  moreover have "flagged \<lparr>str1Matches = replicate (length a) False,
           str2Matches = replicate (length b) False, matches = 0\<rparr> a b {}"
    by (simp add: flagged_def)
  ultimately show ?case by auto
next
  case (Suc k)
  let ?s = "foldl (matchStep a b d)
          \<lparr>str1Matches = replicate (length a) False,
           str2Matches = replicate (length b) False, matches = 0\<rparr> [0..<k]"
  from Suc obtain G where g: "greedyUpto a b d k G" and f: "flagged ?s a b G" by auto
  from Suc.prems have k: "k < length a" by simp
  have step: "foldl (matchStep a b d)
          \<lparr>str1Matches = replicate (length a) False,
           str2Matches = replicate (length b) False, matches = 0\<rparr> [0..<Suc k] = matchStep a b d ?s k"
    by simp
  show ?case
  proof (cases "findMatch a b (str2Matches ?s) d k")
    case None
    then have "matchStep a b d ?s k = ?s" by (simp add: matchStep_def)
    with greedy_step_None[OF k g f None] f show ?thesis unfolding step by auto
  next
    case (Some j)
    from greedy_step_Some[OF k g f Some] flagged_step_Some[OF k f Some]
    show ?thesis unfolding step by blast
  qed
qed

lemma matchLoop_greedy:
  "\<exists>G. greedyUpto a b d (length a) G \<and> flagged (matchLoop a b d) a b G"
  unfolding matchLoop_def by (rule greedy_loop) simp

lemma matchLoop_swap:
  "str1Matches (matchLoop b a d) = str2Matches (matchLoop a b d) \<and>
   str2Matches (matchLoop b a d) = str1Matches (matchLoop a b d) \<and>
   matches (matchLoop b a d) = matches (matchLoop a b d)"
proof -
  obtain G where g: "greedyUpto a b d (length a) G" and f: "flagged (matchLoop a b d) a b G"
    using matchLoop_greedy by blast
  obtain H where h: "greedyUpto b a d (length b) H" and fh: "flagged (matchLoop b a d) b a H"
    using matchLoop_greedy by blast
  from greedyUpto_unique[OF h greedyUpto_converse[OF g]] have H: "H = G\<inverse>" .
  have fs: "fst ` (G\<inverse>) = snd ` G" "snd ` (G\<inverse>) = fst ` G" by force+
  have 1: "str1Matches (matchLoop b a d) = str2Matches (matchLoop a b d)"
    using f fh unfolding flagged_def H fs by (intro nth_equalityI) auto
  have 2: "str2Matches (matchLoop b a d) = str1Matches (matchLoop a b d)"
    using f fh unfolding flagged_def H fs by (intro nth_equalityI) auto
  have "matches (matchLoop b a d) = cnt (str1Matches (matchLoop b a d))"
    using matchLoop_inv[of b a d] by (simp add: matchInv_def)
  also have "\<dots> = cnt (str2Matches (matchLoop a b d))" by (simp only: 1)
  also have "\<dots> = matches (matchLoop a b d)"
    using matchLoop_inv[of a b d] by (simp add: matchInv_def)
  finally show ?thesis using 1 2 by simp
qed

section \<open>What the second loop counts\<close>

lemma matchedChars_take_Suc:
  assumes "n < length s" and "length m = length s"
  shows "matchedChars (take (Suc n) s) (take (Suc n) m) =
         matchedChars (take n s) (take n m) @ (if m ! n then [s ! n] else [])"
  using assms by (simp add: matchedChars_def take_Suc_conv_app_nth)

lemma matchedChars_split:
  assumes "length m = length s"
  shows "matchedChars s m = matchedChars (take k s) (take k m) @ matchedChars (drop k s) (drop k m)"
proof -
  have "zip s m = zip (take k s) (take k m) @ zip (drop k s) (drop k m)"
    by (metis append_take_drop_id take_zip drop_zip)
  then show ?thesis by (simp add: matchedChars_def)
qed

lemma length_matchedChars: "length m = length s \<Longrightarrow> length (matchedChars s m) = cnt m"
proof (induction s m rule: list_induct2')
  case (4 x xs y ys)
  then show ?case by (simp add: matchedChars_def)
qed (simp_all add: matchedChars_def)

lemma mismatches_snoc:
  "length xs = length ys \<Longrightarrow>
   mismatches (xs @ [x]) (ys @ [y]) = mismatches xs ys + (if x \<noteq> y then 1 else 0)"
  by (simp add: mismatches_def)

lemma mismatches_append_right:
  "length xs = length ys \<Longrightarrow> mismatches xs (ys @ zs) = mismatches xs ys"
  by (simp add: mismatches_def zip_append2)

lemma mismatches_sym: "mismatches xs ys = mismatches ys xs"
proof -
  have "zip ys xs = map (\<lambda>(x, y). (y, x)) (zip xs ys)"
    by (induction xs ys rule: list_induct2') simp_all
  then show ?thesis
    by (simp add: mismatches_def filter_map o_def case_prod_unfold eq_commute)
qed

lemma skipUnmatched_matched:
  "0 < cnt (drop k m2) \<Longrightarrow> length m2 = length b \<Longrightarrow>
   \<exists>k'. skipUnmatched m2 k = Some k' \<and> k' < length m2 \<and>
        cnt (drop k m2) = cnt (drop (Suc k') m2) + 1 \<and>
        matchedChars (take (Suc k') b) (take (Suc k') m2) = matchedChars (take k b) (take k m2) @ [b ! k']"
proof (induction m2 k rule: skipUnmatched.induct)
  case (1 m2 k)
  show ?case
  proof (cases "length m2 \<le> k")
    case True
    with "1.prems" show ?thesis by simp
  next
    case False
    then have d: "drop k m2 = m2 ! k # drop (Suc k) m2"
      by (simp add: Cons_nth_drop_Suc)
    from False "1.prems"(2) have kb: "k < length b" by simp
    note mc = matchedChars_take_Suc[OF kb "1.prems"(2)]
    show ?thesis
    proof (cases "m2 ! k")
      case True
      with False d mc show ?thesis
        by (subst skipUnmatched.simps) simp
    next
      case nk: False
      with d "1.prems" have "0 < cnt (drop (k + 1) m2)" by simp
      from "1.IH"[OF False nk this "1.prems"(2)] obtain k' where
        "skipUnmatched m2 (k + 1) = Some k'" "k' < length m2"
        "cnt (drop (k + 1) m2) = cnt (drop (Suc k') m2) + 1"
        "matchedChars (take (Suc k') b) (take (Suc k') m2) =
           matchedChars (take (k + 1) b) (take (k + 1) m2) @ [b ! k']" by blast
      with False nk d mc show ?thesis
        by (subst skipUnmatched.simps) simp
    qed
  qed
qed

lemma transLoop_prefix_count:
  assumes l1: "length m1 = length a" and l2: "length m2 = length b" and c: "cnt m1 \<le> cnt m2"
  shows "n \<le> length a \<Longrightarrow>
   \<exists>k. foldl (transStep a b m1 m2) (Some (0, 0)) [0..<n] =
         Some (k, mismatches (matchedChars (take n a) (take n m1)) (matchedChars (take k b) (take k m2))) \<and>
       cnt (drop n m1) \<le> cnt (drop k m2) \<and>
       length (matchedChars (take n a) (take n m1)) = length (matchedChars (take k b) (take k m2))"
proof (induction n)
  case 0
  from c show ?case by (simp add: matchedChars_def mismatches_def)
next
  case (Suc n)
  let ?A = "matchedChars (take n a) (take n m1)"
  from Suc obtain k where
    st: "foldl (transStep a b m1 m2) (Some (0, 0)) [0..<n] =
         Some (k, mismatches ?A (matchedChars (take k b) (take k m2)))"
    and le: "cnt (drop n m1) \<le> cnt (drop k m2)"
    and len: "length ?A = length (matchedChars (take k b) (take k m2))"
    by auto
  let ?B = "matchedChars (take k b) (take k m2)"
  from Suc.prems l1 have n: "n < length a" "n < length m1" by simp_all
  have d: "drop n m1 = m1 ! n # drop (Suc n) m1"
    using n by (simp add: Cons_nth_drop_Suc)
  note mc = matchedChars_take_Suc[OF n(1) l1]
  have step: "foldl (transStep a b m1 m2) (Some (0, 0)) [0..<Suc n] =
      transStep a b m1 m2 (Some (k, mismatches ?A ?B)) n"
    using st by simp
  show ?case
  proof (cases "m1 ! n")
    case True
    with d le have "0 < cnt (drop k m2)" by simp
    from skipUnmatched_matched[OF this l2] obtain k' where
      k': "skipUnmatched m2 k = Some k'" "cnt (drop k m2) = cnt (drop (Suc k') m2) + 1"
      "matchedChars (take (Suc k') b) (take (Suc k') m2) = ?B @ [b ! k']" by blast
    have t: "transStep a b m1 m2 (Some (k, mismatches ?A ?B)) n =
        Some (Suc k', mismatches (?A @ [a ! n]) (?B @ [b ! k']))"
      using True k'(1) len by (simp add: transStep_def mismatches_snoc)
    show ?thesis
      unfolding step t using True mc k'(2,3) d le len
      by (intro exI[of _ "Suc k'"]) simp
  next
    case False
    have t: "transStep a b m1 m2 (Some (k, mismatches ?A ?B)) n = Some (k, mismatches ?A ?B)"
      using False by (simp add: transStep_def)
    show ?thesis
      unfolding step t using False mc d le len
      by (intro exI[of _ k]) simp
  qed
qed

lemma transLoop_mismatches:
  assumes l1: "length m1 = length a" and l2: "length m2 = length b" and c: "cnt m1 \<le> cnt m2"
  shows "\<exists>k. transLoop a b m1 m2 = Some (k, mismatches (matchedChars a m1) (matchedChars b m2))"
proof -
  from transLoop_prefix_count[OF l1 l2 c, of "length a"] l1 obtain k where
    r: "transLoop a b m1 m2 =
        Some (k, mismatches (matchedChars a m1) (matchedChars (take k b) (take k m2)))"
    and len: "length (matchedChars a m1) = length (matchedChars (take k b) (take k m2))"
    unfolding transLoop_def by auto
  have "mismatches (matchedChars a m1) (matchedChars b m2) =
      mismatches (matchedChars a m1) (matchedChars (take k b) (take k m2))"
    unfolding matchedChars_split[OF l2, of k] using len by (rule mismatches_append_right)
  with r show ?thesis by auto
qed

lemma prefixLength_sym: "prefixLength a b = prefixLength b a"
proof -
  have "(\<lambda>i. a ! i = b ! i) = (\<lambda>i. b ! i = a ! i)" by (auto simp: fun_eq_iff)
  then show ?thesis by (simp add: prefixLength_def min.commute min.left_commute)
qed

lemma jaroScore_sym: "jaroScore m t len1 len2 = jaroScore m t len2 len1"
  by (simp add: jaroScore_def add.commute)

lemma similarity_sym:
  "jaroSimilarity a b = jaroSimilarity b a \<and> jaroWinklerSimilarity a b = jaroWinklerSimilarity b a"
proof (cases "a = b")
  case True
  then show ?thesis by simp
next
  case False
  let ?d = "maxDist (length a) (length b)"
  let ?s = "matchLoop a b ?d"
  have dd: "maxDist (length b) (length a) = ?d" by (simp add: maxDist_def max.commute)
  note sw = matchLoop_swap[of b a ?d]
  from matchLoop_inv[of a b ?d]
  have inv: "length (str1Matches ?s) = length a" "length (str2Matches ?s) = length b"
    "cnt (str1Matches ?s) = cnt (str2Matches ?s)"
    by (simp_all add: matchInv_def)
  from transLoop_mismatches[OF inv(1,2)] inv(3) obtain k where
    1: "transLoop a b (str1Matches ?s) (str2Matches ?s) =
        Some (k, mismatches (matchedChars a (str1Matches ?s)) (matchedChars b (str2Matches ?s)))"
    by auto
  from transLoop_mismatches[OF inv(2,1)] inv(3) obtain k' where
    2: "transLoop b a (str2Matches ?s) (str1Matches ?s) =
        Some (k', mismatches (matchedChars b (str2Matches ?s)) (matchedChars a (str1Matches ?s)))"
    by auto
  from False have ne: "b \<noteq> a" by blast
  show ?thesis
    using False ne 1 2 sw
    by (simp add: jaroSimilarity_def jaroWinklerSimilarity_def Let_def dd
        mismatches_sym[of "matchedChars b (str2Matches ?s)"] jaroScore_sym[of _ _ "length b"]
        prefixLength_sym[of b a])
qed

lemma counts_sym:
  "matches (matchLoop a b (maxDist (length a) (length b))) =
     matches (matchLoop b a (maxDist (length b) (length a))) \<and>
   map_option snd (transLoop a b (str1Matches (matchLoop a b (maxDist (length a) (length b))))
                                 (str2Matches (matchLoop a b (maxDist (length a) (length b))))) =
     map_option snd (transLoop b a (str1Matches (matchLoop b a (maxDist (length b) (length a))))
                                   (str2Matches (matchLoop b a (maxDist (length b) (length a)))))"
proof -
  let ?d = "maxDist (length a) (length b)"
  let ?s = "matchLoop a b ?d"
  have dd: "maxDist (length b) (length a) = ?d" by (simp add: maxDist_def max.commute)
  note sw = matchLoop_swap[of b a ?d]
  from matchLoop_inv[of a b ?d]
  have inv: "length (str1Matches ?s) = length a" "length (str2Matches ?s) = length b"
    "cnt (str1Matches ?s) = cnt (str2Matches ?s)"
    by (simp_all add: matchInv_def)
  from transLoop_mismatches[OF inv(1,2)] inv(3) obtain k where
    1: "transLoop a b (str1Matches ?s) (str2Matches ?s) =
        Some (k, mismatches (matchedChars a (str1Matches ?s)) (matchedChars b (str2Matches ?s)))"
    by auto
  from transLoop_mismatches[OF inv(2,1)] inv(3) obtain k' where
    2: "transLoop b a (str2Matches ?s) (str1Matches ?s) =
        Some (k', mismatches (matchedChars b (str2Matches ?s)) (matchedChars a (str1Matches ?s)))"
    by auto
  show ?thesis
    unfolding dd using 1 2 sw
    by (simp add: mismatches_sym[of "matchedChars b (str2Matches ?s)"])
qed

section \<open>The loop of the suite, step by step\<close>

lemma beforeRun_failed [simp]: "failed (beforeRun s test) = failed s"
  by (simp add: beforeRun_def Let_def)

lemma beforeRun_numtests: "numtests (beforeRun s test) = numtests s + 1"
  by (simp add: beforeRun_def Let_def)

lemma beforeRun_points [simp]: "points (beforeRun s test) = points s"
  by (simp add: beforeRun_def Let_def)

lemma beforeRun_availablePoints:
  "availablePoints (beforeRun s test) =
     (if declaresPoints test \<and> \<not> isExtra test then availablePoints s + pointsValue test
      else availablePoints s)"
  by (simp add: beforeRun_def Let_def)

lemma testStep_numtests: "numtests (testStep rx w s test) = numtests s + 1"
  by (cases "run rx test (w (numtests s))") (simp_all add: testStep_def Let_def beforeRun_numtests)

lemma testStep_availablePoints:
  "availablePoints (testStep rx w s test) =
     (if declaresPoints test \<and> \<not> isExtra test then availablePoints s + pointsValue test
      else availablePoints s)"
  by (cases "run rx test (w (numtests s))") (simp_all add: testStep_def Let_def beforeRun_availablePoints)

lemma testStep_extra_failed:
  "isExtra test \<Longrightarrow> failed (testStep rx w s test) = failed s"
  by (cases "run rx test (w (numtests s))") (simp_all add: testStep_def Let_def)

lemma testStep_pass:
  assumes "run rx test (w (numtests s)) = Inr out"
  shows "points (testStep rx w s test) = points s + pointsValue test"
    and "failed (testStep rx w s test) = failed s"
  using assms by (simp_all add: testStep_def Let_def declaresPoints_def)

lemma testStep_fail:
  assumes "run rx test (w (numtests s)) = Inl e"
  shows "points (testStep rx w s test) = points s"
    and "failed (testStep rx w s test) = (if isExtra test then failed s else True)"
  using assms by (simp_all add: testStep_def Let_def)

section \<open>Containment and normalisation\<close>

lemma includesStr_sublist: "includesStr a e \<longleftrightarrow> sublist e a"
  by (induction a) (simp_all add: sublist_Cons_right)

lemma includesStr_empty [simp]: "includesStr a []"
  by (simp add: includesStr_sublist)

lemma normalizeLineEndings_empty [simp]: "normalizeLineEndings [] = []"
  by (simp add: normalizeLineEndings_def trim_def)

section \<open>The score of two different strings with a match\<close>

text \<open>
  When the strings differ and the first loop finds a match, \<open>jaroWinklerSimilarity\<close> returns
  the score of \<open>jaroSimilarity\<close> raised by \<open>prefixLength * 0.25 * (1 - jaro)\<close>, with the
  \<open>prefixLength\<close> that its loop counts.
\<close>

lemma jaroWinkler_boost:
  assumes "a \<noteq> b" and "matches (matchLoop a b (maxDist (length a) (length b))) \<noteq> 0"
  shows "\<exists>base. jaroSimilarity a b = Some base \<and>
           jaroWinklerSimilarity a b = Some (boosted (prefixLength a b) base)"
proof -
  let ?s = "matchLoop a b (maxDist (length a) (length b))"
  from transLoop_matchLoop_Some[of a b "maxDist (length a) (length b)"]
  obtain k t where "transLoop a b (str1Matches ?s) (str2Matches ?s) = Some (k, t)" by blast
  with assms show ?thesis
    by (simp add: jaroSimilarity_def jaroWinklerSimilarity_def Let_def boosted_def)
qed

section \<open>The rounded scores\<close>

text \<open>The loops do not depend on the rounding, so the rounded similarity functions always
  return as well; with no rounding they are the exact ones.\<close>

lemma jaroSimilarityWith_total: "\<exists>r. jaroSimilarityWith rnd str1 str2 = Some r"
  using transLoop_matchLoop_Some[of str1 str2 "maxDist (length str1) (length str2)"]
  by (auto simp: jaroSimilarityWith_def Let_def)

lemma jaroWinklerSimilarityWith_total: "\<exists>r. jaroWinklerSimilarityWith rnd str1 str2 = Some r"
  using transLoop_matchLoop_Some[of str1 str2 "maxDist (length str1) (length str2)"]
  by (auto simp: jaroWinklerSimilarityWith_def Let_def)

lemma jaroScoreWith_exact: "jaroScoreWith (\<lambda>x. x) m t len1 len2 = jaroScore m t len1 len2"
  by (simp add: jaroScoreWith_def jaroScore_def)

lemma jaroSimilarityWith_exact: "jaroSimilarityWith (\<lambda>x. x) = jaroSimilarity"
  by (intro ext)
    (auto simp: jaroSimilarityWith_def jaroSimilarity_def jaroScoreWith_exact Let_def
      split: option.splits)

lemma jaroWinklerSimilarityWith_exact: "jaroWinklerSimilarityWith (\<lambda>x. x) = jaroWinklerSimilarity"
  by (intro ext)
    (auto simp: jaroWinklerSimilarityWith_def jaroWinklerSimilarity_def jaroScoreWith_exact Let_def
      split: option.splits)

section \<open>Line breaks and windows\<close>

text \<open>
  What \<open>replace(/\r?\n/g, ' ')\<close> does, without the recursion of \<open>collapseLines\<close>: a text with
  no line feed is unchanged, and up to the first line feed the text is copied, without the
  carriage return that may stand before the line feed, followed by one space and the rest
  collapsed. The windows are the substrings \<open>take sz (drop j c)\<close> for every \<open>j\<close> with
  \<open>j + sz \<le> length c\<close>, in this order.
\<close>

lemma collapseLines_no_LF: "LF \<notin> set (collapseLines h)"
  by (induction h rule: collapseLines.induct) auto

lemma collapseLines_id: "LF \<notin> set u \<Longrightarrow> collapseLines u = u"
proof (induction u rule: collapseLines.induct)
  case 1
  then show ?case by simp
next
  case (2 c cs)
  then show ?case by (cases cs) auto
qed

lemma collapseLines_break:
  "LF \<notin> set u \<Longrightarrow>
   collapseLines (u @ LF # v) =
     (if u \<noteq> [] \<and> last u = CR then butlast u else u) @ CHR '' '' # collapseLines v"
proof (induction u)
  case Nil
  then show ?case by simp
next
  case (Cons c u)
  show ?case
  proof (cases u)
    case Nil
    with Cons.prems show ?thesis by simp
  next
    case (Cons c' u')
    with Cons.prems Cons.IH show ?thesis by auto
  qed
qed

lemma toWindows_take_drop:
  assumes "sz \<le> length c"
  shows "length (toWindows c sz) = length c - sz + 1"
    and "j + sz \<le> length c \<Longrightarrow> toWindows c sz ! j = take sz (drop j c)"
proof -
  from assms show "length (toWindows c sz) = length c - sz + 1"
    by (simp add: toWindows_def)
  assume "j + sz \<le> length c"
  then have "j < length [0..<length c - sz + 1]" by simp
  with assms show "toWindows c sz ! j = take sz (drop j c)"
    unfolding toWindows_def by (simp add: nth_map del: upt_Suc)
qed

lemma fuzzySearchWith_windows:
  fixes sim :: "string \<Rightarrow> string \<Rightarrow> 'a::linorder option"
  assumes total: "\<And>a b. \<exists>r. sim a b = Some r"
  shows "\<exists>w d. fuzzySearchWith sim haystack needle = Some w \<and> sim w needle = Some d \<and>
           (if length needle \<le> length (collapseLines haystack)
            then length w = length needle \<and>
                 (\<exists>k. k + length needle \<le> length (collapseLines haystack) \<and>
                    w = take (length needle) (drop k (collapseLines haystack)) \<and>
                    (\<forall>j. j + length needle \<le> length (collapseLines haystack) \<longrightarrow>
                       (\<exists>e. sim (take (length needle) (drop j (collapseLines haystack))) needle = Some e \<and>
                            e \<le> d)) \<and>
                    (\<forall>j<k. \<exists>e. sim (take (length needle) (drop j (collapseLines haystack))) needle = Some e \<and>
                              e < d))
            else w = collapseLines haystack)"
proof -
  let ?c = "collapseLines haystack" and ?n = "length needle"
  let ?ws = "toWindows ?c ?n"
  from fuzzySearchWith_leftmost_max[of sim haystack needle, OF total]
  obtain k d where k: "k < length ?ws" and r: "fuzzySearchWith sim haystack needle = Some (?ws ! k)"
    and d: "sim (?ws ! k) needle = Some d"
    and mx: "\<forall>j<length ?ws. \<exists>e. sim (?ws ! j) needle = Some e \<and> e \<le> d"
    and lm: "\<forall>j<k. \<exists>e. sim (?ws ! j) needle = Some e \<and> e < d"
    by blast
  show ?thesis
  proof (cases "?n \<le> length ?c")
    case True
    note w = toWindows_take_drop[OF True]
    from k w(1) True have kb: "k + ?n \<le> length ?c" by simp
    have wk: "?ws ! k = take ?n (drop k ?c)" by (rule w(2)[OF kb])
    have len: "length (?ws ! k) = ?n" unfolding wk using kb by simp
    have all: "\<forall>j. j + ?n \<le> length ?c \<longrightarrow>
        (\<exists>e. sim (take ?n (drop j ?c)) needle = Some e \<and> e \<le> d)"
    proof (intro allI impI)
      fix j assume jb: "j + ?n \<le> length ?c"
      then have "j < length ?ws" using w(1) by simp
      with mx have "\<exists>e. sim (?ws ! j) needle = Some e \<and> e \<le> d" by blast
      then show "\<exists>e. sim (take ?n (drop j ?c)) needle = Some e \<and> e \<le> d"
        unfolding w(2)[OF jb] .
    qed
    have before: "\<forall>j<k. \<exists>e. sim (take ?n (drop j ?c)) needle = Some e \<and> e < d"
    proof (intro allI impI)
      fix j assume jk: "j < k"
      with kb have jb: "j + ?n \<le> length ?c" by simp
      from lm jk have "\<exists>e. sim (?ws ! j) needle = Some e \<and> e < d" by blast
      then show "\<exists>e. sim (take ?n (drop j ?c)) needle = Some e \<and> e < d"
        unfolding w(2)[OF jb] .
    qed
    from True r d len kb wk all before show ?thesis
      by (intro exI[of _ "?ws ! k"] exI[of _ d]) (simp, metis)
  next
    case False
    then have "?ws = [?c]" by (simp add: toWindows_def)
    with k have "?ws ! k = ?c" by simp
    with False r d show ?thesis by auto
  qed
qed

section \<open>A search where the rounding decides\<close>

text \<open>
  For the haystack \<open>baaba\<close> and the needle \<open>baba\<close> the two windows \<open>baab\<close> and \<open>aaba\<close> have
  the same exact score, 23/24. The code computes 0.9583333333333333 for the first and
  0.9583333333333334 for the second, and returns the second; so does the search with the
  scores rounded by \<open>binary64\<close>. The values are computed by the simplifier from the
  definitions.
\<close>

lemma floor_rat_numeral: "\<lfloor>(numeral a :: rat) / numeral b\<rfloor> = numeral a div numeral b"
  using floor_divide_of_int_eq[of "numeral a" "numeral b", where ?'a = rat] by simp

lemma ceiling_rat_numeral: "\<lceil>(numeral a :: rat) / numeral b\<rceil> = - (- numeral a div numeral b)"
  using floor_divide_of_int_eq[of "- numeral a" "numeral b", where ?'a = rat]
  by (simp add: ceiling_def)

lemmas binary64_eval =
  binary64_def exponentOf_def pow2_def roundHalfEven_def bitLength.simps Let_def
  floor_rat_numeral ceiling_rat_numeral

lemma binary64_third: "binary64 (1 / 3) = 6004799503160661 / 18014398509481984"
  by (simp add: binary64_eval)

lemma jaroScore_baab: "jaroScoreWith binary64 4 2 4 4 = 8256599316845909 / 9007199254740992"
  by (simp add: jaroScoreWith_def binary64_eval)

lemma jaroScore_aaba: "jaroScoreWith binary64 3 0 4 4 = 7505999378950827 / 9007199254740992"
  by (simp add: jaroScoreWith_def binary64_eval)

lemma jaroWinkler_baab_rnd: "jaroWinklerSimilarityWith rnd ''baab'' ''baba'' =
    Some (rnd (jaroScoreWith rnd 4 2 4 4 + rnd (rnd (2 * (1 / 4)) * rnd (1 - jaroScoreWith rnd 4 2 4 4))))"
  by code_simp simp

lemma jaroWinkler_aaba_rnd: "jaroWinklerSimilarityWith rnd ''aaba'' ''baba'' =
    Some (rnd (jaroScoreWith rnd 3 0 4 4 + rnd (rnd (3 * (1 / 4)) * rnd (1 - jaroScoreWith rnd 3 0 4 4))))"
  by code_simp simp

lemma jaroWinkler_baab: "jaroWinklerSimilarityWith binary64 ''baab'' ''baba'' = Some (4315949642896725 / 4503599627370496)"
  unfolding jaroWinkler_baab_rnd jaroScore_baab by (simp add: binary64_eval)

lemma jaroWinkler_aaba: "jaroWinklerSimilarityWith binary64 ''aaba'' ''baba'' = Some (8631899285793451 / 9007199254740992)"
  unfolding jaroWinkler_aaba_rnd jaroScore_aaba by (simp add: binary64_eval)

lemma windows_baaba: "toWindows (collapseLines ''baaba'') (length ''baba'') = [''baab'', ''aaba'']"
  by code_simp

lemma fuzzySearch_baaba: "fuzzySearchWith (jaroWinklerSimilarityWith binary64) ''baaba'' ''baba'' = Some ''aaba''"
  unfolding fuzzySearchWith_def windows_baaba Let_def
  by (simp add: closer_def jaroWinkler_baab jaroWinkler_aaba)

section \<open>The claims\<close>

text \<open>
  C1. A suite of three tests that are not extra, worth 10, 20 and 30 points, of which the
  first fails and the others pass, followed by an extra-credit test worth 15 points that
  passes: \<open>runAll\<close> ends with \<open>availablePoints = 60\<close> and \<open>points = 65\<close>, reports an extra
  credit of 5, and has set \<open>failed\<close>. Without the extra test the points are 50 of 60. A
  step on an extra test leaves \<open>failed\<close> and \<open>availablePoints\<close> as they were, whether the
  test passes or fails.
\<close>

theorem runAll_extra_credit_suite:
  assumes p: "test_points t1 = Some 10" "test_points t2 = Some 20" "test_points t3 = Some 30"
      "test_points t4 = Some 15"
    and x: "\<not> isExtra t1" "\<not> isExtra t2" "\<not> isExtra t3" "isExtra t4"
    and r: "run rx t1 (w 0) = Inl e1" "run rx t2 (w 1) = Inr o2" "run rx t3 (w 2) = Inr o3"
      "run rx t4 (w 3) = Inr o4"
  shows "availablePoints (final (runAll rx w [t1, t2, t3, t4])) = 60 \<and>
         points (final (runAll rx w [t1, t2, t3, t4])) = 65 \<and>
         extraCreditPoints (runAll rx w [t1, t2, t3, t4]) = Some 5 \<and>
         failed (final (runAll rx w [t1, t2, t3, t4])) \<and>
         availablePoints (final (runAll rx w [t1, t2, t3])) = 60 \<and>
         points (final (runAll rx w [t1, t2, t3])) = 50 \<and>
         failed (final (runAll rx w [t1, t2, t3])) \<and>
         (\<forall>s v. failed (testStep rx v s t4) = failed s) \<and>
         (\<forall>s v. availablePoints (testStep rx v s t4) = availablePoints s)"
proof -
  let ?s1 = "testStep rx w startTally t1"
  let ?s2 = "testStep rx w ?s1 t2"
  let ?s3 = "testStep rx w ?s2 t3"
  let ?s4 = "testStep rx w ?s3 t4"
  have d: "declaresPoints t1" "declaresPoints t2" "declaresPoints t3" "declaresPoints t4"
    "pointsValue t1 = 10" "pointsValue t2 = 20" "pointsValue t3 = 30" "pointsValue t4 = 15"
    using p by (simp_all add: declaresPoints_def pointsValue_def)
  have n: "numtests startTally = 0" "numtests ?s1 = 1" "numtests ?s2 = 2" "numtests ?s3 = 3"
    by (simp_all add: startTally_def testStep_numtests)
  have a: "availablePoints ?s3 = 60" "availablePoints ?s4 = 60"
    using d x by (simp_all add: testStep_availablePoints startTally_def)
  have s1: "points ?s1 = 0" "failed ?s1"
    using testStep_fail[of rx t1 w startTally e1, unfolded n, OF r(1)] x
    by (simp_all add: startTally_def)
  have s2: "points ?s2 = 20" "failed ?s2"
    using testStep_pass[of rx t2 w ?s1 o2, unfolded n, OF r(2)] s1 d by simp_all
  have s3: "points ?s3 = 50" "failed ?s3"
    using testStep_pass[of rx t3 w ?s2 o3, unfolded n, OF r(3)] s2 d by simp_all
  have s4: "points ?s4 = 65" "failed ?s4"
    using testStep_pass[of rx t4 w ?s3 o4, unfolded n, OF r(4)] s3 d by simp_all
  have f3: "final (runAll rx w [t1, t2, t3]) = ?s3"
    and f4: "final (runAll rx w [t1, t2, t3, t4]) = ?s4"
    and e4: "extraCreditPoints (runAll rx w [t1, t2, t3, t4]) =
        (if points ?s4 > availablePoints ?s4 then Some (1 * (points ?s4 - availablePoints ?s4)) else None)"
    by (simp_all add: runAll_def Let_def)
  have e: "extraCreditPoints (runAll rx w [t1, t2, t3, t4]) = Some 5"
    unfolding e4 using a s4 by simp
  from x(4) have g: "\<forall>s v. failed (testStep rx v s t4) = failed s"
    by (simp add: testStep_extra_failed)
  from x(4) have h: "\<forall>s v. availablePoints (testStep rx v s t4) = availablePoints s"
    by (simp add: testStep_availablePoints)
  show ?thesis
    unfolding f3 f4 using a s3 s4 e g h by simp
qed

theorem runAll_extra_credit_suite_witness:
  "availablePoints (final (runAll noRegex (\<lambda>i. simpleWorld (if i = 0 then ExitNonZero else Resolved) ''ok'')
      [plainTest ''t1'' 10 False, plainTest ''t2'' 20 False, plainTest ''t3'' 30 False, plainTest ''x'' 15 True])) = 60 \<and>
   points (final (runAll noRegex (\<lambda>i. simpleWorld (if i = 0 then ExitNonZero else Resolved) ''ok'')
      [plainTest ''t1'' 10 False, plainTest ''t2'' 20 False, plainTest ''t3'' 30 False, plainTest ''x'' 15 True])) = 65 \<and>
   extraCreditPoints (runAll noRegex (\<lambda>i. simpleWorld (if i = 0 then ExitNonZero else Resolved) ''ok'')
      [plainTest ''t1'' 10 False, plainTest ''t2'' 20 False, plainTest ''t3'' 30 False, plainTest ''x'' 15 True]) = Some 5 \<and>
   failed (final (runAll noRegex (\<lambda>i. simpleWorld (if i = 0 then ExitNonZero else Resolved) ''ok'')
      [plainTest ''t1'' 10 False, plainTest ''t2'' 20 False, plainTest ''t3'' 30 False, plainTest ''x'' 15 True]))"
proof -
  let ?w = "\<lambda>i::nat. simpleWorld (if i = 0 then ExitNonZero else Resolved) ''ok''"
  have r: "run noRegex (plainTest ''t1'' 10 False) (?w 0) = Inl (TestError ''ok'')"
    "run noRegex (plainTest ''t2'' 20 False) (?w 1) = Inr ''ok''"
    "run noRegex (plainTest ''t3'' 30 False) (?w 2) = Inr ''ok''"
    "run noRegex (plainTest ''x'' 15 True) (?w 3) = Inr ''ok''"
    by (simp_all add: run_def runSetup_def runCommand_def awaitExit_def noExpectation_def blank_def
        plainTest_def simpleWorld_def Let_def)
  have p: "test_points (plainTest ''t1'' 10 False) = Some 10"
    "test_points (plainTest ''t2'' 20 False) = Some 20"
    "test_points (plainTest ''t3'' 30 False) = Some 30"
    "test_points (plainTest ''x'' 15 True) = Some 15"
    by (simp_all add: plainTest_def)
  have x: "\<not> isExtra (plainTest ''t1'' 10 False)" "\<not> isExtra (plainTest ''t2'' 20 False)"
    "\<not> isExtra (plainTest ''t3'' 30 False)" "isExtra (plainTest ''x'' 15 True)"
    by (simp_all add: plainTest_def isExtra_def)
  from runAll_extra_credit_suite[OF p x r] show ?thesis by blast
qed

text \<open>
  C2. The timeout of \<open>run\<close> is \<open>(test.timeout || 1) * 60000\<close> milliseconds, which is 60000
  when the field is absent or zero; this product is never zero, so the fallback of 30000
  after the second \<open>||\<close> is never taken. When the setup succeeds, \<open>runCommand\<close> is called
  with that budget less the whole milliseconds the setup took, which is at most the budget.
\<close>

theorem run_timeout_budget:
  assumes "runSetup test w (timeoutMs test) = Inr ()"
  shows "timeoutMs test = orElse (test_timeout test) 1 * 60000 \<and>
         orElse (test_timeout test) 1 * 60000 \<noteq> 0 \<and>
         (test_timeout test = None \<or> test_timeout test = Some 0 \<longrightarrow> timeoutMs test = 60000) \<and>
         elapsedMs (elapsed w) = int (fst (elapsed w)) * 1000 + int (snd (elapsed w) div 1000000) \<and>
         run rx test w = runCommand rx test w (timeoutMs test - of_int (elapsedMs (elapsed w))) \<and>
         timeoutMs test - of_int (elapsedMs (elapsed w)) \<le> timeoutMs test"
proof -
  have nz: "orElse (test_timeout test) 1 * 60000 \<noteq> 0"
    by (simp add: orElse_def split: option.splits)
  then have t: "timeoutMs test = orElse (test_timeout test) 1 * 60000"
    by (simp add: timeoutMs_def orElse_def)
  have d: "test_timeout test = None \<or> test_timeout test = Some 0 \<longrightarrow> timeoutMs test = 60000"
    unfolding t by (auto simp: orElse_def)
  have "(of_nat (fst (elapsed w)) * 1000 + of_nat (snd (elapsed w)) / 1000000 :: rat) =
      of_int (int (fst (elapsed w)) * 1000) + of_int (int (snd (elapsed w))) / of_int 1000000"
    by simp
  then have "elapsedMs (elapsed w) =
      \<lfloor>rat_of_int (int (fst (elapsed w)) * 1000) + rat_of_int (int (snd (elapsed w))) / rat_of_int 1000000\<rfloor>"
    unfolding elapsedMs_def by (rule arg_cong)
  also have "\<dots> = int (fst (elapsed w)) * 1000 + \<lfloor>rat_of_int (int (snd (elapsed w))) / rat_of_int 1000000\<rfloor>"
    by (rule int_add_floor[symmetric])
  also have "\<lfloor>rat_of_int (int (snd (elapsed w))) / rat_of_int 1000000\<rfloor> = int (snd (elapsed w)) div 1000000"
    by (rule floor_divide_of_int_eq)
  finally have e: "elapsedMs (elapsed w) = int (fst (elapsed w)) * 1000 + int (snd (elapsed w) div 1000000)"
    by (simp add: zdiv_int)
  have r: "run rx test w = runCommand rx test w (timeoutMs test - of_int (elapsedMs (elapsed w)))"
    using assms by (simp add: run_def Let_def)
  have "0 \<le> elapsedMs (elapsed w)" unfolding e by simp
  then have l: "timeoutMs test - of_int (elapsedMs (elapsed w)) \<le> timeoutMs test" by simp
  from t nz d e r l show ?thesis by blast
qed

theorem run_timeout_budget_witness:
  "timeoutMs (helloTest Exact) = 120000 \<and>
   timeoutMs echoTest = 60000 \<and>
   elapsedMs (elapsed (simpleWorld Resolved ''Hello world'')) = 1500 \<and>
   run noRegex (helloTest Exact) (simpleWorld Resolved ''Hello world'') =
     runCommand noRegex (helloTest Exact) (simpleWorld Resolved ''Hello world'') 118500 \<and>
   run noRegex echoTest (simpleWorld Resolved ''abc'') =
     runCommand noRegex echoTest (simpleWorld Resolved ''abc'') 58500"
proof -
  have s1: "runSetup (helloTest Exact) (simpleWorld Resolved ''Hello world'') (timeoutMs (helloTest Exact)) = Inr ()"
    by (simp add: runSetup_def awaitExit_def simpleWorld_def)
  have s2: "runSetup echoTest (simpleWorld Resolved ''abc'') (timeoutMs echoTest) = Inr ()"
    by (simp add: runSetup_def echoTest_def blank_def)
  have t: "test_timeout (helloTest Exact) = Some 2" "test_timeout echoTest = Some 0"
    by (simp_all add: helloTest_def echoTest_def)
  have e: "elapsed (simpleWorld Resolved ''Hello world'') = (1, 500000000)"
    "elapsed (simpleWorld Resolved ''abc'') = (1, 500000000)"
    by (simp_all add: simpleWorld_def)
  from run_timeout_budget[OF s1, of noRegex] run_timeout_budget[OF s2, of noRegex]
  show ?thesis
    unfolding t e by (simp add: orElse_def)
qed

text \<open>
  C3. The test of the repository expects \<open>fuzzySearch\<close> to find \<open>fox\<close> for the needle \<open>fxo\<close>
  in the sentence about the quick brown fox. Both versions of the code return \<open>bro\<close>: with
  windows of length 3 only equal positions match, \<open>bro\<close> and \<open>fox\<close> both agree with \<open>fxo\<close>
  in one position and get the same score, and \<open>bro\<close> (window 10) comes before \<open>fox\<close>
  (window 16).
\<close>

theorem fuzzySearch_fxo_returns_bro:
  "fuzzySearch ''The quick brown fox jumped over the lazy dog.'' ''fxo'' = Some ''bro'' \<and>
   fuzzySearchJaro ''The quick brown fox jumped over the lazy dog.'' ''fxo'' = Some ''bro'' \<and>
   jaroWinklerSimilarity ''bro'' ''fxo'' = Some (2 / 3) \<and>
   jaroWinklerSimilarity ''fox'' ''fxo'' = Some (2 / 3) \<and>
   jaroSimilarity ''bro'' ''fxo'' = Some (5 / 9) \<and>
   jaroSimilarity ''fox'' ''fxo'' = Some (5 / 9) \<and>
   toWindows ''The quick brown fox jumped over the lazy dog.'' 3 ! 10 = ''bro'' \<and>
   toWindows ''The quick brown fox jumped over the lazy dog.'' 3 ! 16 = ''fox''"
  by code_simp

text \<open>
  With the common prefix counted as the documentation says, \<open>fox\<close> is the only window with
  a boost, and the search finds it.
\<close>

lemma spec_search_fxo:
  "fuzzySearchWith specSimilarity ''The quick brown fox jumped over the lazy dog.'' ''fxo'' = Some ''fox''"
  by code_simp

text \<open>
  C4. The boost of \<open>jaroWinklerSimilarity\<close> is \<open>prefixLength * 0.25 * (1 - jaro)\<close>, where the
  loop for \<open>prefixLength\<close> counts the equal positions among the first four and does not
  stop at the first difference. For \<open>bro\<close> and \<open>fxo\<close> the common prefix is empty, the Jaro
  score is 5/9, and the code returns 2/3.
\<close>

theorem jaroWinkler_counts_equal_positions:
  "jaroSimilarity ''bro'' ''fxo'' = Some (5 / 9) \<and>
   commonPrefixLength ''bro'' ''fxo'' = 0 \<and>
   prefixLength ''bro'' ''fxo'' = 1 \<and>
   jaroWinklerSimilarity ''bro'' ''fxo'' = Some (2 / 3) \<and>
   specSimilarity ''bro'' ''fxo'' = Some (5 / 9)"
  by code_simp

text \<open>
  C5. For two strings of equal length both versions of the similarity give the same score
  with the arguments exchanged. The numbers the score is computed from are the same both
  ways: the number of matches, the number of transpositions and \<open>prefixLength\<close>. So the
  code divides and adds the same numbers in the same order, and the equality does not
  depend on rounding. (The lemmas above show it for strings of any two lengths.)
\<close>

theorem similarity_symmetric_equal_length:
  assumes "length a = length b"
  shows "jaroWinklerSimilarity a b = jaroWinklerSimilarity b a \<and>
         jaroSimilarity a b = jaroSimilarity b a \<and>
         matches (matchLoop a b (maxDist (length a) (length b))) =
           matches (matchLoop b a (maxDist (length b) (length a))) \<and>
         map_option snd (transLoop a b (str1Matches (matchLoop a b (maxDist (length a) (length b))))
                                       (str2Matches (matchLoop a b (maxDist (length a) (length b))))) =
           map_option snd (transLoop b a (str1Matches (matchLoop b a (maxDist (length b) (length a))))
                                         (str2Matches (matchLoop b a (maxDist (length b) (length a))))) \<and>
         prefixLength a b = prefixLength b a"
  using similarity_sym[of a b] counts_sym[of a b] prefixLength_sym[of a b] by simp

theorem similarity_symmetric_equal_length_witness:
  "jaroSimilarity ''CRATE'' ''TRACE'' = Some (11 / 15) \<and>
   jaroSimilarity ''TRACE'' ''CRATE'' = Some (11 / 15) \<and>
   jaroWinklerSimilarity ''TRACE'' ''CRATE'' = jaroWinklerSimilarity ''CRATE'' ''TRACE''"
proof -
  have "jaroSimilarity ''CRATE'' ''TRACE'' = Some (11 / 15)" by code_simp
  with similarity_symmetric_equal_length[of "''CRATE''" "''TRACE''"] show ?thesis by simp
qed

text \<open>
  C6. \<open>fuzzySearch\<close>, with either similarity function and the scores rounded in any way
  (in the code: to doubles), always returns. With \<open>c\<close> the haystack after
  \<open>replace(/\r?\n/g, ' ')\<close>: when the needle is longer than \<open>c\<close> the result is \<open>c\<close>.
  Otherwise the result has the length of the needle; it is the substring of that length at
  some position \<open>k\<close> of \<open>c\<close>; the substring at every position scores at most as much, and
  at every position before \<open>k\<close> strictly less. The last three parts say what \<open>c\<close> is: it
  has no line feed, a text with no line feed is unchanged, and the first line feed, with
  the carriage return before it if there is one, becomes one space.
\<close>

theorem fuzzySearch_window_leftmost:
  assumes "sim = jaroWinklerSimilarityWith rnd \<or> sim = jaroSimilarityWith rnd"
  shows "(\<exists>w d. fuzzySearchWith sim haystack needle = Some w \<and> sim w needle = Some d \<and>
           (if length needle \<le> length (collapseLines haystack)
            then length w = length needle \<and>
                 (\<exists>k. k + length needle \<le> length (collapseLines haystack) \<and>
                    w = take (length needle) (drop k (collapseLines haystack)) \<and>
                    (\<forall>j. j + length needle \<le> length (collapseLines haystack) \<longrightarrow>
                       (\<exists>e. sim (take (length needle) (drop j (collapseLines haystack))) needle = Some e \<and>
                            e \<le> d)) \<and>
                    (\<forall>j<k. \<exists>e. sim (take (length needle) (drop j (collapseLines haystack))) needle = Some e \<and>
                              e < d))
            else w = collapseLines haystack)) \<and>
         LF \<notin> set (collapseLines haystack) \<and>
         (\<forall>u v. LF \<notin> set u \<longrightarrow>
            collapseLines (u @ LF # v) =
              (if u \<noteq> [] \<and> last u = CR then butlast u else u) @ CHR '' '' # collapseLines v) \<and>
         (\<forall>u. LF \<notin> set u \<longrightarrow> collapseLines u = u)"
proof -
  from assms have total: "\<And>a b. \<exists>r. sim a b = Some r"
    using jaroWinklerSimilarityWith_total jaroSimilarityWith_total by blast
  from fuzzySearchWith_windows[of sim haystack needle, OF total] collapseLines_no_LF[of haystack]
    collapseLines_break collapseLines_id
  show ?thesis by blast
qed

theorem fuzzySearch_window_leftmost_witness:
  "fuzzySearchWith (jaroWinklerSimilarityWith binary64) ''baaba'' ''baba'' = Some ''aaba'' \<and>
   jaroWinklerSimilarityWith binary64 ''baab'' ''baba'' = Some (4315949642896725 / 4503599627370496) \<and>
   jaroWinklerSimilarityWith binary64 ''aaba'' ''baba'' = Some (8631899285793451 / 9007199254740992) \<and>
   (4315949642896725 / 4503599627370496 :: rat) < 8631899285793451 / 9007199254740992 \<and>
   collapseLines ''baaba'' = ''baaba'' \<and>
   LF \<notin> set (collapseLines ''baaba'')"
proof -
  have "jaroWinklerSimilarityWith binary64 = jaroWinklerSimilarityWith binary64 \<or>
      jaroWinklerSimilarityWith binary64 = jaroSimilarityWith binary64"
    by simp
  from fuzzySearch_window_leftmost[OF this, of "''baaba''" "''baba''"]
  have "LF \<notin> set (collapseLines ''baaba'')" "collapseLines ''baaba'' = ''baaba''"
    by simp_all
  with fuzzySearch_baaba jaroWinkler_baab jaroWinkler_aaba show ?thesis by simp
qed

text \<open>
  C7. For two strings of at most one character each, \<open>maxDist\<close> is \<open>-1\<close>, and both versions
  of the similarity return 1 when the strings are equal and 0 when they differ; nothing is
  read out of range, and the second loop is not reached. The first loop, whose range is
  empty, leaves the same state as a scan of position \<open>i\<close> alone (\<open>maxDist = 0\<close>).
\<close>

theorem similarity_short_strings:
  assumes "length a \<le> 1" and "length b \<le> 1"
  shows "maxDist (length a) (length b) = - 1 \<and>
         jaroWinklerSimilarity a b = Some (if a = b then 1 else 0) \<and>
         jaroSimilarity a b = Some (if a = b then 1 else 0) \<and>
         (a \<noteq> b \<longrightarrow> matchLoop a b (maxDist (length a) (length b)) = matchLoop a b 0)"
proof -
  from assms(1) consider "a = []" | x where "a = [x]"
    by (cases a) auto
  then show ?thesis
  proof cases
    case 1
    with assms(2) show ?thesis
      by (cases b) (auto simp: maxDist_def jaroWinklerSimilarity_def jaroSimilarity_def matchLoop_def)
  next
    case 2
    from assms(2) consider "b = []" | y where "b = [y]"
      by (cases b) auto
    then show ?thesis
    proof cases
      case 1
      with 2 show ?thesis
        by (auto simp: maxDist_def jaroWinklerSimilarity_def jaroSimilarity_def matchLoop_def
            matchStep_def findMatch_def scanLo_def scanHi_def)
    next
      case 2
      with \<open>a = [x]\<close> show ?thesis
        by (auto simp: maxDist_def jaroWinklerSimilarity_def jaroSimilarity_def matchLoop_def
            matchStep_def findMatch_def scanLo_def scanHi_def)
    qed
  qed
qed

theorem similarity_short_strings_witness:
  "jaroWinklerSimilarity ''a'' ''b'' = Some 0 \<and> jaroWinklerSimilarity ''a'' ''a'' = Some 1 \<and>
   jaroSimilarity '''' ''b'' = Some 0 \<and> matchLoop ''a'' ''b'' (- 1) = matchLoop ''a'' ''b'' 0"
  using similarity_short_strings[of "''a''" "''b''"] similarity_short_strings[of "''a''" "''a''"]
    similarity_short_strings[of "''''" "''b''"]
  by (simp add: maxDist_def)

text \<open>
  C8. When the run command exits with code 0, its output normalises to \<open>Hello world\<close> and
  the expected output is \<open>Hello\<close>: \<open>runCommand\<close> throws the error of the exact comparison in
  mode \<open>exact\<close>, and returns the output in mode \<open>included\<close> (also when the mode is absent).
\<close>

theorem exact_fails_included_passes:
  assumes "event (runChild w timeout) = Resolved"
    and "normalizeLineEndings (captured (runChild w timeout)) = ''Hello world''"
    and "test_output test = Some ''Hello''"
  shows "(test_comparison test = Some Exact \<longrightarrow>
            runCommand rx test w timeout = Inl (ExactMismatch ''Hello world'' ''Hello'')) \<and>
         (test_comparison test = Some Included \<or> test_comparison test = None \<longrightarrow>
            runCommand rx test w timeout = Inr (captured (runChild w timeout)))"
proof -
  have n: "normalizeLineEndings ''Hello'' = ''Hello''"
    by (simp add: normalizeLineEndings_def trim_def isWhiteSpace_def)
  have i: "includesStr ''Hello world'' ''Hello''"
    by simp
  have ne: "\<not> noExpectation test"
    using assms(3) by (simp add: noExpectation_def blank_def)
  show ?thesis
    using assms n i ne
    by (auto simp: runCommand_def awaitExit_def orEmpty_def compareIncluded_def Let_def)
qed

theorem exact_fails_included_passes_witness:
  "runCommand noRegex (helloTest Exact) (simpleWorld Resolved (''Hello world'' @ [CR, LF])) 118500 =
     Inl (ExactMismatch ''Hello world'' ''Hello'') \<and>
   runCommand noRegex (helloTest Included) (simpleWorld Resolved (''Hello world'' @ [CR, LF])) 118500 =
     Inr (''Hello world'' @ [CR, LF])"
proof -
  let ?w = "simpleWorld Resolved (''Hello world'' @ [CR, LF])"
  have a: "event (runChild ?w 118500) = Resolved"
    "captured (runChild ?w 118500) = ''Hello world'' @ [CR, LF]"
    by (simp_all add: simpleWorld_def)
  have b: "normalizeLineEndings (captured (runChild ?w 118500)) = ''Hello world''"
    unfolding a by (simp add: normalizeLineEndings_def trim_def isWhiteSpace_def)
  have c: "test_output (helloTest Exact) = Some ''Hello''" "test_output (helloTest Included) = Some ''Hello''"
    "test_comparison (helloTest Exact) = Some Exact" "test_comparison (helloTest Included) = Some Included"
    by (simp_all add: helloTest_def)
  from exact_fails_included_passes[OF a(1) b c(1), of noRegex]
    exact_fails_included_passes[OF a(1) b c(2), of noRegex]
  show ?thesis unfolding a(2) using c(3,4) by simp
qed

text \<open>
  C9. When a test has neither an input nor an expected output (absent or empty) and the run
  command exits with code 0, \<open>runCommand\<close> returns the captured output, whatever it is and
  whatever the comparison mode.
\<close>

theorem runCommand_no_expectation:
  assumes "blank (test_output test)" and "blank (test_input test)"
    and "event (runChild w timeout) = Resolved"
  shows "runCommand rx test w timeout = Inr (captured (runChild w timeout))"
  using assms by (simp add: runCommand_def awaitExit_def noExpectation_def)

theorem runCommand_no_expectation_witness:
  "runCommand noRegex (plainTest ''t'' 10 False) (simpleWorld Resolved ''anything at all'') 60000 =
     Inr ''anything at all''"
proof -
  have "blank (test_output (plainTest ''t'' 10 False))" "blank (test_input (plainTest ''t'' 10 False))"
    "event (runChild (simpleWorld Resolved ''anything at all'') 60000) = Resolved"
    by (simp_all add: plainTest_def blank_def simpleWorld_def)
  from runCommand_no_expectation[OF this, of noRegex] show ?thesis
    by (simp add: simpleWorld_def)
qed

text \<open>
  C10. A test in mode \<open>included\<close> (or with no mode) that has an input and no expected
  output does not take the shortcut of line 237; the expected text normalises to the empty
  string, which every text includes, and \<open>runCommand\<close> returns the captured output when the
  run command exits with code 0.
\<close>

theorem included_empty_output_passes:
  assumes "test_comparison test = Some Included \<or> test_comparison test = None"
    and "\<not> blank (test_input test)" and "blank (test_output test)"
    and "event (runChild w timeout) = Resolved"
  shows "\<not> noExpectation test \<and>
         normalizeLineEndings (orEmpty (test_output test)) = [] \<and>
         includesStr (normalizeLineEndings (captured (runChild w timeout)))
           (normalizeLineEndings (orEmpty (test_output test))) \<and>
         runCommand rx test w timeout = Inr (captured (runChild w timeout))"
proof -
  from assms(3) have e: "orEmpty (test_output test) = []"
    by (simp add: blank_def orEmpty_def split: option.splits)
  from assms(2) have ne: "\<not> noExpectation test"
    by (simp add: noExpectation_def)
  from assms(1,4) ne e have "runCommand rx test w timeout = Inr (captured (runChild w timeout))"
    by (auto simp: runCommand_def awaitExit_def compareIncluded_def Let_def)
  with e ne show ?thesis by simp
qed

theorem included_empty_output_passes_witness:
  "\<not> noExpectation echoTest \<and>
   runCommand noRegex echoTest (simpleWorld Resolved ''xyz'') 58500 = Inr ''xyz''"
proof -
  have "test_comparison echoTest = Some Included \<or> test_comparison echoTest = None"
    "\<not> blank (test_input echoTest)" "blank (test_output echoTest)"
    "event (runChild (simpleWorld Resolved ''xyz'') 58500) = Resolved"
    by (simp_all add: echoTest_def blank_def simpleWorld_def)
  from included_empty_output_passes[OF this, of noRegex] show ?thesis
    by (simp add: simpleWorld_def)
qed

end
